theory Spec2Isabelle
  imports Main "HOL-Library.Word" "HOL-Library.Signed_Division" "HOL-Library.Sublist"
    "HOL-Library.Monad_Syntax"
begin

unbundle bit_operations_syntax

section \<open>Go primitives\<close>

text \<open>
  Go's \<open>int\<close> is a 64-bit two's complement integer on the platforms the program targets.
  It is modelled as a HOL \<open>int\<close>; the result of each addition and multiplication of the
  program is passed through \<open>i64\<close>, which wraps it into the 64-bit range as the machine
  does. A loop counter stays below its bound, so its increment cannot wrap. \<open>byte\<close> is
  \<open>uint8\<close>. A run-time panic (index out of range, negative \<open>make\<close> length) is the value
  \<open>None\<close>. Memory exhaustion is not modelled.
\<close>

type_synonym byte = "8 word"
type_synonym uint64 = "64 word"

definition i64 :: "int \<Rightarrow> int" where
  "i64 n = signed_take_bit 63 n"

definition is_i64 :: "int \<Rightarrow> bool" where
  "is_i64 n \<longleftrightarrow> - (2 ^ 63) \<le> n \<and> n < 2 ^ 63"

text \<open>\<open>xs[i]\<close> on a slice: panics outside \<open>0 \<le> i < len(xs)\<close>.\<close>

definition at :: "'a list \<Rightarrow> int \<Rightarrow> 'a option" where
  "at xs i = (if 0 \<le> i \<and> i < int (length xs) then Some (xs ! nat i) else None)"

text \<open>\<open>xs[i] = v\<close> on a slice.\<close>

definition upd :: "'a list \<Rightarrow> int \<Rightarrow> 'a \<Rightarrow> 'a list option" where
  "upd xs i v = (if 0 \<le> i \<and> i < int (length xs) then Some (xs[nat i := v]) else None)"

text \<open>\<open>make([]T, n)\<close>: a zeroed slice, a panic for negative \<open>n\<close>. The runtime also
  panics above its allocation limit; that limit, like the exhaustion of memory, is left out.
  Where a statement depends on a constructor returning a grid of a given size, it takes that
  as a hypothesis.\<close>

definition make_slice :: "int \<Rightarrow> 'a \<Rightarrow> 'a list option" where
  "make_slice n z = (if n < 0 then None else Some (replicate (nat n) z))"

text \<open>\<open>for i := a; i < n; i++ { body }\<close>, the body threading a state and possibly panicking.\<close>

function for_loop :: "int \<Rightarrow> int \<Rightarrow> (int \<Rightarrow> 's \<Rightarrow> 's option) \<Rightarrow> 's \<Rightarrow> 's option" where
  "for_loop i n body s =
     (if i < n then (case body i s of None \<Rightarrow> None | Some s' \<Rightarrow> for_loop (i + 1) n body s')
      else Some s)"
  by pat_completeness auto
termination
  by (relation "measure (\<lambda>(i, n, body, s). nat (n - i))") auto

declare for_loop.simps [simp del]

text \<open>
  A \<open>*Grid\<close> is an index into the list of allocated grids. Go collects garbage, so an
  object is never freed while it is referenced: allocation appends, nothing is removed.
  Dereferencing a pointer that was never allocated is a panic.
\<close>

type_synonym 'g heap = "'g list"

definition alloc :: "'g heap \<Rightarrow> 'g \<Rightarrow> 'g heap \<times> nat" where
  "alloc hp g = (hp @ [g], length hp)"

definition deref :: "'g heap \<Rightarrow> nat \<Rightarrow> 'g option" where
  "deref hp p = (if p < length hp then Some (hp ! p) else None)"

text \<open>A method with a pointer receiver that mutates the object: \<open>p.f(...)\<close>.\<close>

definition with_grid :: "'g heap \<Rightarrow> nat \<Rightarrow> ('g \<Rightarrow> 'g option) \<Rightarrow> 'g heap option" where
  "with_grid hp p f = do { g \<leftarrow> deref hp p; g' \<leftarrow> f g; Some (hp[p := g']) }"

text \<open>Go maps: a missing key reads as the zero value.\<close>

definition lookup_int :: "(string \<rightharpoonup> int) \<Rightarrow> string \<Rightarrow> int" where
  "lookup_int m k = (case m k of None \<Rightarrow> 0 | Some v \<Rightarrow> v)"

definition lookup_bool :: "(string \<rightharpoonup> bool) \<Rightarrow> string \<Rightarrow> bool" where
  "lookup_bool m k = (case m k of None \<Rightarrow> False | Some v \<Rightarrow> v)"

text \<open>\<open>fmt.Sprintf("%d", i)\<close>: the decimal digits, most significant first, after a minus
  sign for a negative number.\<close>

definition digit_char :: "nat \<Rightarrow> char" where
  "digit_char d = char_of (48 + d)"

function digits_of :: "nat \<Rightarrow> string" where
  "digits_of n = (if n < 10 then [digit_char n] else digits_of (n div 10) @ [digit_char (n mod 10)])"
  by pat_completeness auto
termination
  by (relation "measure id") auto

declare digits_of.simps [simp del]

definition itoa :: "int \<Rightarrow> string" where
  "itoa i = (if i < 0 then CHR ''-'' # digits_of (nat (- i)) else digits_of (nat i))"

text \<open>The bytes the renderers print: the escape sequences and the UTF-8 encodings of the
  box-drawing glyphs.\<close>

definition cursor_home :: string where
  "cursor_home = [CHR 0x1B, CHR ''['', CHR ''H'']"

definition clear_screen :: string where
  "clear_screen = [CHR 0x1B, CHR ''['', CHR ''2'', CHR ''J'']"

definition newline :: string where
  "newline = [CHR 0x0A]"

definition box_tl :: string where "box_tl = [CHR 0xE2, CHR 0x94, CHR 0x8C]"
definition box_tr :: string where "box_tr = [CHR 0xE2, CHR 0x94, CHR 0x90]"
definition box_bl :: string where "box_bl = [CHR 0xE2, CHR 0x94, CHR 0x94]"
definition box_br :: string where "box_br = [CHR 0xE2, CHR 0x94, CHR 0x98]"
definition box_h :: string where "box_h = [CHR 0xE2, CHR 0x94, CHR 0x80]"
definition box_v :: string where "box_v = [CHR 0xE2, CHR 0x94, CHR 0x82]"
definition block :: string where "block = [CHR 0xE2, CHR 0x96, CHR 0x88]"

text \<open>\<open>for i := 0; i < width*2+1; i++ { fmt.Print("\<dots>") }\<close>, appending to the output so far.\<close>

definition print_hline :: "int \<Rightarrow> string \<Rightarrow> string option" where
  "print_hline w out = for_loop 0 (i64 (i64 (w * 2) + 1)) (\<lambda>i out. Some (out @ box_h)) out"

section \<open>The byte-array grid\<close>

text \<open>
  \<open>grid.go\<close> and the byte-array version of the engine declare the same struct, the same
  \<open>NewGrid\<close> and the same \<open>GetCell\<close>; the cached version adds two maps to the struct and
  keeps \<open>GetCell\<close> and \<open>MakeItSo\<close> verbatim. The cached struct is therefore a record
  extension, and the functions the versions share are defined once, on the record scheme.
\<close>

record Grid =
  width :: int
  height :: int
  cells :: "byte list list"

definition in_bounds :: "'a Grid_scheme \<Rightarrow> int \<Rightarrow> int \<Rightarrow> bool" where
  "in_bounds g x y \<longleftrightarrow> x \<ge> 0 \<and> x < width g \<and> y \<ge> 0 \<and> y < height g"

text \<open>\<open>make([][]byte, height)\<close> followed by \<open>make([]byte, width)\<close> for every row.\<close>

definition make_cells :: "int \<Rightarrow> int \<Rightarrow> byte list list option" where
  "make_cells w h = do {
     rows \<leftarrow> make_slice h [];
     for_loop 0 (int (length rows)) (\<lambda>i cs. do { r \<leftarrow> make_slice w 0; upd cs i r }) rows
   }"

definition NewGrid :: "int \<Rightarrow> int \<Rightarrow> Grid option" where
  "NewGrid w h = do { cs \<leftarrow> make_cells w h; Some \<lparr>width = w, height = h, cells = cs\<rparr> }"

text \<open>\<open>grid.cells[y][x]\<close> and \<open>grid.cells[y][x] = v\<close>.\<close>

definition cell_at :: "byte list list \<Rightarrow> int \<Rightarrow> int \<Rightarrow> byte option" where
  "cell_at cs x y = do { row \<leftarrow> at cs y; at row x }"

definition cell_upd :: "byte list list \<Rightarrow> int \<Rightarrow> int \<Rightarrow> byte \<Rightarrow> byte list list option" where
  "cell_upd cs x y v = do { row \<leftarrow> at cs y; row' \<leftarrow> upd row x v; upd cs y row' }"

definition GetCell :: "'a Grid_scheme \<Rightarrow> int \<Rightarrow> int \<Rightarrow> byte option" where
  "GetCell g x y = (if in_bounds g x y then cell_at (cells g) x y else Some 0)"

text \<open>\<open>SetCell(x, y int, alive bool)\<close> of \<open>grid.go\<close>.\<close>

definition SetCell_bool :: "Grid \<Rightarrow> int \<Rightarrow> int \<Rightarrow> bool \<Rightarrow> Grid option" where
  "SetCell_bool g x y alive =
     (if in_bounds g x y then
        do { cs \<leftarrow> cell_upd (cells g) x y (if alive then 1 else 0); Some (g\<lparr>cells := cs\<rparr>) }
      else Some g)"

text \<open>\<open>SetCell(x, y int, value byte)\<close> of the byte-array engine.\<close>

definition SetCell :: "Grid \<Rightarrow> int \<Rightarrow> int \<Rightarrow> byte \<Rightarrow> Grid option" where
  "SetCell g x y v =
     (if in_bounds g x y then
        do { cs \<leftarrow> cell_upd (cells g) x y v; Some (g\<lparr>cells := cs\<rparr>) }
      else Some g)"

text \<open>The rows of a frame, shared by \<open>Display\<close> and \<open>MakeItSo\<close>: both read
  \<open>grid.cells[y][x]\<close> directly.\<close>

definition print_cell :: "'a Grid_scheme \<Rightarrow> int \<Rightarrow> int \<Rightarrow> string \<Rightarrow> string option" where
  "print_cell g y x out = do {
     c \<leftarrow> cell_at (cells g) x y;
     Some ((if c = 1 then out @ block else out @ '' '') @ '' '')
   }"

definition print_row :: "'a Grid_scheme \<Rightarrow> int \<Rightarrow> string \<Rightarrow> string option" where
  "print_row g y out = do {
     out \<leftarrow> for_loop 0 (width g) (print_cell g y) (out @ box_v @ '' '');
     Some (out @ box_v @ newline)
   }"

definition print_frame :: "'a Grid_scheme \<Rightarrow> string \<Rightarrow> string option" where
  "print_frame g out = do {
     out \<leftarrow> print_hline (width g) (out @ box_tl);
     out \<leftarrow> for_loop 0 (height g) (print_row g) (out @ box_tr @ newline);
     out \<leftarrow> print_hline (width g) (out @ box_bl);
     Some (out @ box_br @ newline)
   }"

text \<open>\<open>Display\<close> of \<open>grid.go\<close>: the bytes written to standard output.\<close>

definition Display :: "Grid \<Rightarrow> string option" where
  "Display g = print_frame g (cursor_home @ clear_screen)"

text \<open>\<open>MakeItSo\<close> of the byte-array engine and of the cached engine.\<close>

definition MakeItSo :: "'a Grid_scheme \<Rightarrow> string option" where
  "MakeItSo grid = print_frame grid cursor_home"

text \<open>\<open>scanForLifeforms\<close> of the byte-array engine: the body of the inner loop, then the
  two loops over \<open>dy\<close> and \<open>dx\<close>.\<close>

definition scan_step :: "'a Grid_scheme \<Rightarrow> int \<Rightarrow> int \<Rightarrow> int \<Rightarrow> int \<Rightarrow> int \<Rightarrow> int option" where
  "scan_step grid x y dy dx lifeformCount =
     (if dx = 0 \<and> dy = 0 then Some lifeformCount
      else
        let newX = i64 (x + dx); newY = i64 (y + dy) in
        if in_bounds grid newX newY then
          do { c \<leftarrow> cell_at (cells grid) newX newY; Some (i64 (lifeformCount + uint c)) }
        else Some lifeformCount)"

definition scanForLifeforms :: "'a Grid_scheme \<Rightarrow> int \<Rightarrow> int \<Rightarrow> int option" where
  "scanForLifeforms grid x y = for_loop (- 1) 2 (\<lambda>dy. for_loop (- 1) 2 (scan_step grid x y dy)) 0"

text \<open>\<open>BoldlyGo\<close> of the byte-array engine. \<open>grid\<close> and \<open>nextGen\<close> are pointers; the body of
  the inner loop reads \<open>*grid\<close> and calls \<open>nextGen.SetCell\<close>.\<close>

definition evolve_cell :: "nat \<Rightarrow> nat \<Rightarrow> int \<Rightarrow> int \<Rightarrow> Grid heap \<Rightarrow> Grid heap option" where
  "evolve_cell grid nextGen y x hp = do {
     g \<leftarrow> deref hp grid;
     lifeformCount \<leftarrow> scanForLifeforms g x y;
     c \<leftarrow> cell_at (cells g) x y;
     if c = 1 then
       (if lifeformCount < 2 \<or> lifeformCount > 3 then with_grid hp nextGen (\<lambda>n. SetCell n x y 0)
        else with_grid hp nextGen (\<lambda>n. SetCell n x y 1))
     else
       (if lifeformCount = 3 then with_grid hp nextGen (\<lambda>n. SetCell n x y 1)
        else with_grid hp nextGen (\<lambda>n. SetCell n x y 0))
   }"

definition evolve_row :: "nat \<Rightarrow> nat \<Rightarrow> int \<Rightarrow> Grid heap \<Rightarrow> Grid heap option" where
  "evolve_row grid nextGen y hp = do {
     g \<leftarrow> deref hp grid;
     row \<leftarrow> at (cells g) y;
     for_loop 0 (int (length row)) (evolve_cell grid nextGen y) hp
   }"

definition BoldlyGo :: "Grid heap \<Rightarrow> nat \<Rightarrow> (Grid heap \<times> nat) option" where
  "BoldlyGo hp grid = do {
     g \<leftarrow> deref hp grid;
     n \<leftarrow> NewGrid (width g) (height g);
     (hp, nextGen) \<leftarrow> Some (alloc hp n);
     hp \<leftarrow> for_loop 0 (int (length (cells g))) (evolve_row grid nextGen) hp;
     Some (hp, nextGen)
   }"

section \<open>The bit-packed grid\<close>

record BitGrid =
  width_bits :: int
  height_bits :: int
  cells_bits :: "uint64 list"

definition in_bounds_bits :: "BitGrid \<Rightarrow> int \<Rightarrow> int \<Rightarrow> bool" where
  "in_bounds_bits g x y \<longleftrightarrow> x \<ge> 0 \<and> x < width_bits g \<and> y \<ge> 0 \<and> y < height_bits g"

text \<open>Go's \<open>/\<close> on \<open>int\<close> truncates towards zero (\<open>sdiv\<close>), and \<open>%\<close> is its remainder
  (\<open>smod\<close>).\<close>

definition NewGrid_bits :: "int \<Rightarrow> int \<Rightarrow> BitGrid option" where
  "NewGrid_bits w h =
     (let totalCells = i64 (w * h);
          numUint64s = i64 (totalCells + 63) sdiv 64
      in do { cs \<leftarrow> make_slice numUint64s 0;
              Some \<lparr>width_bits = w, height_bits = h, cells_bits = cs\<rparr> })"

text \<open>The second component is \<open>uint(linearIndex % 64)\<close>: the remainder keeps the sign of
  \<open>linearIndex\<close>, and the conversion to \<open>uint\<close> reads its 64 bits as unsigned.\<close>

definition getBitIndex :: "BitGrid \<Rightarrow> int \<Rightarrow> int \<Rightarrow> int \<times> nat" where
  "getBitIndex g x y =
     (let linearIndex = i64 (i64 (y * width_bits g) + x)
      in (linearIndex sdiv 64, nat (take_bit 64 (linearIndex smod 64))))"

definition SetCell_bits :: "BitGrid \<Rightarrow> int \<Rightarrow> int \<Rightarrow> byte \<Rightarrow> BitGrid option" where
  "SetCell_bits g x y v =
     (if in_bounds_bits g x y then
        (case getBitIndex g x y of (uint64Index, bitPos) \<Rightarrow> do {
           w \<leftarrow> at (cells_bits g) uint64Index;
           cs \<leftarrow> upd (cells_bits g) uint64Index
                  (if v = 1 then w OR push_bit bitPos 1 else w AND NOT (push_bit bitPos 1));
           Some (g\<lparr>cells_bits := cs\<rparr>) })
      else Some g)"

definition GetCell_bits :: "BitGrid \<Rightarrow> int \<Rightarrow> int \<Rightarrow> byte option" where
  "GetCell_bits g x y =
     (if in_bounds_bits g x y then
        (case getBitIndex g x y of (uint64Index, bitPos) \<Rightarrow> do {
           w \<leftarrow> at (cells_bits g) uint64Index;
           if w AND push_bit bitPos 1 \<noteq> 0 then Some 1 else Some 0 })
      else Some 0)"

definition print_cell_bits :: "BitGrid \<Rightarrow> int \<Rightarrow> int \<Rightarrow> string \<Rightarrow> string option" where
  "print_cell_bits g y x out = do {
     c \<leftarrow> GetCell_bits g x y;
     Some ((if c = 1 then out @ block else out @ '' '') @ '' '')
   }"

definition print_row_bits :: "BitGrid \<Rightarrow> int \<Rightarrow> string \<Rightarrow> string option" where
  "print_row_bits g y out = do {
     out \<leftarrow> for_loop 0 (width_bits g) (print_cell_bits g y) (out @ box_v @ '' '');
     Some (out @ box_v @ newline)
   }"

definition MakeItSo_bits :: "BitGrid \<Rightarrow> string option" where
  "MakeItSo_bits grid = do {
     out \<leftarrow> print_hline (width_bits grid) (cursor_home @ box_tl);
     out \<leftarrow> for_loop 0 (height_bits grid) (print_row_bits grid) (out @ box_tr @ newline);
     out \<leftarrow> print_hline (width_bits grid) (out @ box_bl);
     Some (out @ box_br @ newline)
   }"

definition scan_step_bits :: "BitGrid \<Rightarrow> int \<Rightarrow> int \<Rightarrow> int \<Rightarrow> int \<Rightarrow> int \<Rightarrow> int option" where
  "scan_step_bits grid x y dy dx lifeformCount =
     (if dx = 0 \<and> dy = 0 then Some lifeformCount
      else
        let newX = i64 (x + dx); newY = i64 (y + dy) in
        if in_bounds_bits grid newX newY then
          do { c \<leftarrow> GetCell_bits grid newX newY; Some (i64 (lifeformCount + uint c)) }
        else Some lifeformCount)"

definition scanForLifeforms_bits :: "BitGrid \<Rightarrow> int \<Rightarrow> int \<Rightarrow> int option" where
  "scanForLifeforms_bits grid x y =
     for_loop (- 1) 2 (\<lambda>dy. for_loop (- 1) 2 (scan_step_bits grid x y dy)) 0"

definition evolve_cell_bits :: "nat \<Rightarrow> nat \<Rightarrow> int \<Rightarrow> int \<Rightarrow> BitGrid heap \<Rightarrow> BitGrid heap option" where
  "evolve_cell_bits grid nextGen y x hp = do {
     g \<leftarrow> deref hp grid;
     lifeformCount \<leftarrow> scanForLifeforms_bits g x y;
     currentCell \<leftarrow> GetCell_bits g x y;
     if currentCell = 1 then
       (if lifeformCount < 2 \<or> lifeformCount > 3 then
          with_grid hp nextGen (\<lambda>n. SetCell_bits n x y 0)
        else with_grid hp nextGen (\<lambda>n. SetCell_bits n x y 1))
     else
       (if lifeformCount = 3 then with_grid hp nextGen (\<lambda>n. SetCell_bits n x y 1)
        else with_grid hp nextGen (\<lambda>n. SetCell_bits n x y 0))
   }"

text \<open>The loop bounds \<open>grid.height\<close> and \<open>grid.width\<close> are read once: no method assigns
  to these fields.\<close>

definition BoldlyGo_bits :: "BitGrid heap \<Rightarrow> nat \<Rightarrow> (BitGrid heap \<times> nat) option" where
  "BoldlyGo_bits hp grid = do {
     g \<leftarrow> deref hp grid;
     n \<leftarrow> NewGrid_bits (width_bits g) (height_bits g);
     (hp, nextGen) \<leftarrow> Some (alloc hp n);
     hp \<leftarrow> for_loop 0 (height_bits g)
            (\<lambda>y. for_loop 0 (width_bits g) (evolve_cell_bits grid nextGen y)) hp;
     Some (hp, nextGen)
   }"

section \<open>The cached grid\<close>

record CachedGrid = Grid +
  neighborCache :: "string \<rightharpoonup> int"
  cacheValid :: "string \<rightharpoonup> bool"

definition NewGrid_cached :: "int \<Rightarrow> int \<Rightarrow> CachedGrid option" where
  "NewGrid_cached w h = do {
     cs \<leftarrow> make_cells w h;
     Some \<lparr>width = w, height = h, cells = cs, neighborCache = Map.empty, cacheValid = Map.empty\<rparr>
   }"

definition getCacheKey :: "int \<Rightarrow> int \<Rightarrow> string" where
  "getCacheKey x y = itoa x @ '','' @ itoa y"

definition invalidate_step :: "int \<Rightarrow> int \<Rightarrow> int \<Rightarrow> int \<Rightarrow> CachedGrid \<Rightarrow> CachedGrid option" where
  "invalidate_step x y dy dx grid =
     (let newX = i64 (x + dx); newY = i64 (y + dy) in
      if in_bounds grid newX newY then
        Some (grid\<lparr>cacheValid := (cacheValid grid)(getCacheKey newX newY \<mapsto> False)\<rparr>)
      else Some grid)"

definition invalidateNeighborCache :: "CachedGrid \<Rightarrow> int \<Rightarrow> int \<Rightarrow> CachedGrid option" where
  "invalidateNeighborCache grid x y =
     for_loop (- 1) 2 (\<lambda>dy. for_loop (- 1) 2 (invalidate_step x y dy)) grid"

definition SetCell_cached :: "CachedGrid \<Rightarrow> int \<Rightarrow> int \<Rightarrow> byte \<Rightarrow> CachedGrid option" where
  "SetCell_cached grid x y v =
     (if in_bounds grid x y then do {
        oldValue \<leftarrow> cell_at (cells grid) x y;
        cs \<leftarrow> cell_upd (cells grid) x y v;
        if oldValue \<noteq> v then invalidateNeighborCache (grid\<lparr>cells := cs\<rparr>) x y
        else Some (grid\<lparr>cells := cs\<rparr>) }
      else Some grid)"

text \<open>The cached \<open>scanForLifeforms\<close> returns the count and the grid with its cache
  filled. On a miss it runs the two loops of the uncached scan, which are the same text.\<close>

definition scanForLifeforms_cached :: "CachedGrid \<Rightarrow> int \<Rightarrow> int \<Rightarrow> (CachedGrid \<times> int) option" where
  "scanForLifeforms_cached grid x y =
     (let key = getCacheKey x y in
      if cacheValid grid key = Some True then Some (grid, lookup_int (neighborCache grid) key)
      else do {
        lifeformCount \<leftarrow> for_loop (- 1) 2 (\<lambda>dy. for_loop (- 1) 2 (scan_step grid x y dy)) 0;
        Some (grid\<lparr>neighborCache := (neighborCache grid)(key \<mapsto> lifeformCount),
                   cacheValid := (cacheValid grid)(key \<mapsto> True)\<rparr>, lifeformCount) })"

text \<open>The first pass of the cached \<open>BoldlyGo\<close>: the state of the loops is the heap and the
  map \<open>changedCells\<close>.\<close>

definition evolve_cell_cached ::
  "nat \<Rightarrow> nat \<Rightarrow> int \<Rightarrow> int \<Rightarrow> CachedGrid heap \<times> (string \<rightharpoonup> bool)
     \<Rightarrow> (CachedGrid heap \<times> (string \<rightharpoonup> bool)) option" where
  "evolve_cell_cached grid nextGen y x st =
     (case st of (hp, changedCells) \<Rightarrow> do {
        g \<leftarrow> deref hp grid;
        (g, lifeformCount) \<leftarrow> scanForLifeforms_cached g x y;
        hp \<leftarrow> Some (hp[grid := g]);
        currentState \<leftarrow> cell_at (cells g) x y;
        newState \<leftarrow> Some (if currentState = 1
                           then (if lifeformCount < 2 \<or> lifeformCount > 3 then 0 else currentState)
                           else (if lifeformCount = 3 then 1 else currentState));
        n \<leftarrow> deref hp nextGen;
        cs \<leftarrow> cell_upd (cells n) x y newState;
        hp \<leftarrow> Some (hp[nextGen := n\<lparr>cells := cs\<rparr>]);
        Some (hp, if currentState \<noteq> newState then changedCells(getCacheKey x y \<mapsto> True)
                  else changedCells) })"

definition evolve_row_cached ::
  "nat \<Rightarrow> nat \<Rightarrow> int \<Rightarrow> CachedGrid heap \<times> (string \<rightharpoonup> bool)
     \<Rightarrow> (CachedGrid heap \<times> (string \<rightharpoonup> bool)) option" where
  "evolve_row_cached grid nextGen y st = do {
     g \<leftarrow> deref (fst st) grid;
     row \<leftarrow> at (cells g) y;
     for_loop 0 (int (length row)) (evolve_cell_cached grid nextGen y) st
   }"

text \<open>The second pass. The two inner loops leave at the first changed neighbour and have
  no effect, so they are the disjunction over the eight offsets in the order of the loops.\<close>

definition hasChangedNeighbor :: "(string \<rightharpoonup> bool) \<Rightarrow> int \<Rightarrow> int \<Rightarrow> bool" where
  "hasChangedNeighbor changedCells x y =
     list_ex (\<lambda>dy. list_ex (\<lambda>dx. \<not> (dx = 0 \<and> dy = 0) \<and>
        lookup_bool changedCells (getCacheKey (i64 (x + dx)) (i64 (y + dy)))) [- 1, 0, 1]) [- 1, 0, 1]"

definition carry_cell ::
  "nat \<Rightarrow> nat \<Rightarrow> (string \<rightharpoonup> bool) \<Rightarrow> int \<Rightarrow> int \<Rightarrow> CachedGrid heap \<Rightarrow> CachedGrid heap option" where
  "carry_cell grid nextGen changedCells y x hp = do {
     g \<leftarrow> deref hp grid;
     key \<leftarrow> Some (getCacheKey x y);
     if \<not> hasChangedNeighbor changedCells x y \<and> lookup_bool (cacheValid g) key then do {
       n \<leftarrow> deref hp nextGen;
       hp \<leftarrow> Some (hp[nextGen := n\<lparr>neighborCache :=
                      (neighborCache n)(key \<mapsto> lookup_int (neighborCache g) key)\<rparr>]);
       n \<leftarrow> deref hp nextGen;
       Some (hp[nextGen := n\<lparr>cacheValid := (cacheValid n)(key \<mapsto> True)\<rparr>]) }
     else Some hp
   }"

definition BoldlyGo_cached :: "CachedGrid heap \<Rightarrow> nat \<Rightarrow> (CachedGrid heap \<times> nat) option" where
  "BoldlyGo_cached hp grid = do {
     g \<leftarrow> deref hp grid;
     n \<leftarrow> NewGrid_cached (width g) (height g);
     (hp, nextGen) \<leftarrow> Some (alloc hp n);
     hp \<leftarrow> with_grid hp nextGen (\<lambda>n. Some (n\<lparr>neighborCache := Map.empty, cacheValid := Map.empty\<rparr>));
     (hp, changedCells) \<leftarrow>
        for_loop 0 (int (length (cells g))) (evolve_row_cached grid nextGen) (hp, Map.empty);
     hp \<leftarrow> for_loop 0 (height g)
            (\<lambda>y. for_loop 0 (width g) (carry_cell grid nextGen changedCells y)) hp;
     Some (hp, nextGen)
   }"

section \<open>Well-formed grids\<close>

text \<open>
  The fields of the structs are private and every grid comes from \<open>NewGrid\<close>, so the
  slices have the sizes the dimensions announce. The dimensions are machine integers. For
  the bit-packed grid the number of cells, rounded up to a multiple of 64, fits an \<open>int\<close>:
  otherwise \<open>NewGrid\<close> has computed a wrapped length.
\<close>

definition wf_grid :: "'a Grid_scheme \<Rightarrow> bool" where
  "wf_grid g \<longleftrightarrow>
     width g < 2 ^ 63 \<and> height g < 2 ^ 63 \<and> int (length (cells g)) = height g \<and>
     (\<forall>row \<in> set (cells g). int (length row) = width g)"

definition wf_bits :: "BitGrid \<Rightarrow> bool" where
  "wf_bits g \<longleftrightarrow>
     0 \<le> width_bits g \<and> width_bits g < 2 ^ 63 \<and> 0 \<le> height_bits g \<and> height_bits g < 2 ^ 63 \<and>
     width_bits g * height_bits g + 63 < 2 ^ 63 \<and>
     int (length (cells_bits g)) = (width_bits g * height_bits g + 63) div 64"

section \<open>The reference neighbour count and the rules\<close>

text \<open>The eight cells around \<open>(x, y)\<close>, and the 3\<times>3 block that also holds the cell itself.\<close>

definition moore :: "int \<Rightarrow> int \<Rightarrow> (int \<times> int) list" where
  "moore x y =
     [(x - 1, y - 1), (x, y - 1), (x + 1, y - 1),
      (x - 1, y), (x + 1, y),
      (x - 1, y + 1), (x, y + 1), (x + 1, y + 1)]"

definition block9 :: "int \<Rightarrow> int \<Rightarrow> (int \<times> int) list" where
  "block9 x y =
     [(x - 1, y - 1), (x, y - 1), (x + 1, y - 1),
      (x - 1, y), (x, y), (x + 1, y),
      (x - 1, y + 1), (x, y + 1), (x + 1, y + 1)]"


text \<open>The bit of a cell, and what a cell adds to a neighbour's count: its bit, its byte
  value, nothing when it is out of bounds.\<close>

definition alive_bits :: "BitGrid \<Rightarrow> int \<Rightarrow> int \<Rightarrow> bool" where
  "alive_bits g x y \<longleftrightarrow>
     bit (cells_bits g ! nat ((y * width_bits g + x) div 64)) (nat ((y * width_bits g + x) mod 64))"

definition value_bits :: "BitGrid \<Rightarrow> int \<Rightarrow> int \<Rightarrow> int" where
  "value_bits g a b = (if in_bounds_bits g a b \<and> alive_bits g a b then 1 else 0)"

definition count_bits :: "BitGrid \<Rightarrow> int \<Rightarrow> int \<Rightarrow> int" where
  "count_bits g x y = (\<Sum>(a, b)\<leftarrow>moore x y. value_bits g a b)"

definition value_at :: "'a Grid_scheme \<Rightarrow> int \<Rightarrow> int \<Rightarrow> int" where
  "value_at g a b = (if in_bounds g a b then uint (cells g ! nat b ! nat a) else 0)"

definition count_at :: "'a Grid_scheme \<Rightarrow> int \<Rightarrow> int \<Rightarrow> int" where
  "count_at g x y = (\<Sum>(a, b)\<leftarrow>moore x y. value_at g a b)"

text \<open>The four rules as the uncached engines apply them, and as the cached engine does,
  starting from the current state.\<close>

definition lives :: "bool \<Rightarrow> int \<Rightarrow> bool" where
  "lives alive n = (if alive then \<not> (n < 2 \<or> n > 3) else n = 3)"

definition new_state :: "byte \<Rightarrow> int \<Rightarrow> byte" where
  "new_state c k = (if c = 1 then (if k < 2 \<or> k > 3 then 0 else c) else (if k = 3 then 1 else c))"

section \<open>Loop invariants\<close>

text \<open>\<open>nextGen\<close> during the double loop of the uncached engines: the cells in \<open>D\<close> are
  done, the others are still dead.\<close>

definition evolved :: "Grid \<Rightarrow> Grid \<Rightarrow> (int \<Rightarrow> int \<Rightarrow> bool) \<Rightarrow> bool" where
  "evolved g n D \<longleftrightarrow>
     wf_grid n \<and> width n = width g \<and> height n = height g \<and>
     (\<forall>a b. in_bounds g a b \<longrightarrow>
        cells n ! nat b ! nat a =
          (if D a b \<and> lives (cells g ! nat b ! nat a = 1) (count_at g a b) then 1 else 0))"

definition evolved_bits :: "BitGrid \<Rightarrow> BitGrid \<Rightarrow> (int \<Rightarrow> int \<Rightarrow> bool) \<Rightarrow> bool" where
  "evolved_bits g n D \<longleftrightarrow>
     wf_bits n \<and> width_bits n = width_bits g \<and> height_bits n = height_bits g \<and>
     (\<forall>a b. in_bounds_bits g a b \<longrightarrow>
        alive_bits n a b = (D a b \<and> lives (alive_bits g a b) (count_bits g a b)))"

text \<open>The cache is correct when every valid entry of an in-bounds cell holds the count a
  fresh scan gives. One invalidation step is \<open>invalidate_at\<close>.\<close>

definition cache_ok :: "CachedGrid \<Rightarrow> bool" where
  "cache_ok g \<longleftrightarrow>
     (\<forall>a b. in_bounds g a b \<longrightarrow> cacheValid g (getCacheKey a b) = Some True \<longrightarrow>
        lookup_int (neighborCache g) (getCacheKey a b) = count_at g a b)"

definition invalidate_at :: "CachedGrid \<Rightarrow> int \<times> int \<Rightarrow> CachedGrid" where
  "invalidate_at g ab =
     (if in_bounds g (fst ab) (snd ab)
      then g\<lparr>cacheValid := (cacheValid g)(getCacheKey (fst ab) (snd ab) \<mapsto> False)\<rparr> else g)"

definition same_board :: "'a Grid_scheme \<Rightarrow> 'b Grid_scheme \<Rightarrow> bool" where
  "same_board g g' \<longleftrightarrow> width g' = width g \<and> height g' = height g \<and> cells g' = cells g"

text \<open>The two passes of the cached \<open>BoldlyGo\<close> on the source \<open>g0\<close>: the source \<open>g\<close> with
  its cache filled so far, \<open>nextGen\<close> \<open>n\<close> and the map \<open>changedCells\<close>, with the cells in \<open>D\<close>
  done; then \<open>nextGen\<close> while entries are carried forward.\<close>

definition pass1 ::
  "CachedGrid \<Rightarrow> (int \<Rightarrow> int \<Rightarrow> bool) \<Rightarrow> CachedGrid \<Rightarrow> CachedGrid \<Rightarrow> (string \<rightharpoonup> bool) \<Rightarrow> bool" where
  "pass1 g0 D g n ch \<longleftrightarrow>
     same_board g0 g \<and> wf_grid n \<and> width n = width g0 \<and> height n = height g0 \<and>
     neighborCache n = Map.empty \<and> cacheValid n = Map.empty \<and>
     (\<forall>a b. in_bounds g0 a b \<and> D a b \<and> cells n ! nat b ! nat a \<noteq> cells g0 ! nat b ! nat a \<longrightarrow>
        ch (getCacheKey a b) = Some True) \<and>
     (cache_ok g0 \<longrightarrow> cache_ok g \<and>
        (\<forall>a b. in_bounds g0 a b \<and> D a b \<longrightarrow>
           cells n ! nat b ! nat a = new_state (cells g0 ! nat b ! nat a) (count_at g0 a b)))"

definition pass2 :: "CachedGrid \<Rightarrow> CachedGrid \<Rightarrow> CachedGrid \<Rightarrow> bool" where
  "pass2 g0 n1 n \<longleftrightarrow> same_board n1 n \<and> (cache_ok g0 \<longrightarrow> cache_ok n)"

text \<open>The two representations hold the same board.\<close>

definition agree :: "Grid \<Rightarrow> BitGrid \<Rightarrow> bool" where
  "agree ga gb \<longleftrightarrow>
     wf_grid ga \<and> wf_bits gb \<and> width ga = width_bits gb \<and> height ga = height_bits gb \<and>
     (\<forall>a b. in_bounds ga a b \<longrightarrow> cells ga ! nat b ! nat a = (if alive_bits gb a b then 1 else 0))"

text \<open>Reading a decimal back, to show that the cache keys are unique.\<close>

definition digit_val :: "char \<Rightarrow> nat" where
  "digit_val c = of_char c - 48"

definition parse_digits :: "string \<Rightarrow> nat" where
  "parse_digits s = foldl (\<lambda>a c. 10 * a + digit_val c) 0 s"

section \<open>Call sequences and reachable grids\<close>

text \<open>A sequence of \<open>SetCell\<close> calls, each given as \<open>(x, y, value)\<close>, on either representation.\<close>

fun SetCells :: "Grid \<Rightarrow> (int \<times> int \<times> byte) list \<Rightarrow> Grid option" where
  "SetCells g [] = Some g"
| "SetCells g ((x, y, v) # calls) = SetCell g x y v \<bind> (\<lambda>g'. SetCells g' calls)"

fun SetCells_bits :: "BitGrid \<Rightarrow> (int \<times> int \<times> byte) list \<Rightarrow> BitGrid option" where
  "SetCells_bits g [] = Some g"
| "SetCells_bits g ((x, y, v) # calls) = SetCell_bits g x y v \<bind> (\<lambda>g'. SetCells_bits g' calls)"

text \<open>The cached grids a caller can reach: \<open>NewGrid\<close> with machine integers, then
  \<open>SetCell\<close>, \<open>BoldlyGo\<close> (which leaves the source grid with a filled cache and returns the
  next generation) and the in-bounds scans \<open>BoldlyGo\<close> makes, in any order.\<close>

inductive reachable :: "CachedGrid \<Rightarrow> bool" where
  new: "is_i64 w \<Longrightarrow> is_i64 h \<Longrightarrow> NewGrid_cached w h = Some g \<Longrightarrow> reachable g"
| set: "reachable g \<Longrightarrow> SetCell_cached g x y v = Some g' \<Longrightarrow> reachable g'"
| scan: "reachable g \<Longrightarrow> in_bounds g x y \<Longrightarrow> scanForLifeforms_cached g x y = Some (g', c) \<Longrightarrow>
         reachable g'"
| source: "reachable g \<Longrightarrow> deref hp p = Some g \<Longrightarrow> BoldlyGo_cached hp p = Some (hp', q) \<Longrightarrow>
           deref hp' p = Some g' \<Longrightarrow> reachable g'"
| nextGen: "reachable g \<Longrightarrow> deref hp p = Some g \<Longrightarrow> BoldlyGo_cached hp p = Some (hp', q) \<Longrightarrow>
            deref hp' q = Some n \<Longrightarrow> reachable n"

section \<open>Rendered output\<close>

text \<open>A string without the escape character, and the frame of a board without cells: the
  top border, one line of two side borders for each row, the bottom border.\<close>

definition plain :: "string \<Rightarrow> bool" where
  "plain s \<longleftrightarrow> CHR 0x1B \<notin> set s"

definition empty_box :: "int \<Rightarrow> int \<Rightarrow> string" where
  "empty_box w h =
     (let line = concat (replicate (nat (i64 (i64 (w * 2) + 1))) box_h)
      in box_tl @ line @ box_tr @ newline @
         concat (replicate (nat h) (box_v @ '' '' @ box_v @ newline)) @
         box_bl @ line @ box_br @ newline)"

section \<open>Example grids\<close>

text \<open>A 3\<times>3 board holding a horizontal blinker, in each representation; a 5\<times>5 bit-packed board with the blinker in row 2; boards of width 0 and
  height 2, as \<open>NewGrid\<close> returns them.\<close>

definition example_grid :: Grid where
  "example_grid = \<lparr>width = 3, height = 3, cells = [[0, 0, 0], [1, 1, 1], [0, 0, 0]]\<rparr>"

definition example_bits :: BitGrid where
  "example_bits = \<lparr>width_bits = 3, height_bits = 3, cells_bits = [56]\<rparr>"

definition example_cached :: CachedGrid where
  "example_cached =
     \<lparr>width = 3, height = 3, cells = [[0, 0, 0], [1, 1, 1], [0, 0, 0]],
      neighborCache = Map.empty, cacheValid = Map.empty\<rparr>"

definition blinker5 :: BitGrid where
  "blinker5 = \<lparr>width_bits = 5, height_bits = 5, cells_bits = [14336]\<rparr>"

definition zero_grid :: Grid where
  "zero_grid = \<lparr>width = 0, height = 2, cells = [[], []]\<rparr>"

definition zero_bits :: BitGrid where
  "zero_bits = \<lparr>width_bits = 0, height_bits = 2, cells_bits = []\<rparr>"

definition zero_cached :: CachedGrid where
  "zero_cached =
     \<lparr>width = 0, height = 2, cells = [[], []], neighborCache = Map.empty,
      cacheValid = Map.empty\<rparr>"

text \<open>Two call sequences on a 3\<times>3 cached board: a horizontal blinker in row 1, and a 2\<times>2
  block in the corner, each set cell by cell.\<close>

definition set_blinker :: "CachedGrid option" where
  "set_blinker =
     NewGrid_cached 3 3 \<bind> (\<lambda>g. SetCell_cached g 0 1 1) \<bind> (\<lambda>g. SetCell_cached g 1 1 1)
       \<bind> (\<lambda>g. SetCell_cached g 2 1 1)"

definition set_block :: "CachedGrid option" where
  "set_block =
     NewGrid_cached 3 3 \<bind> (\<lambda>g. SetCell_cached g 0 0 1) \<bind> (\<lambda>g. SetCell_cached g 1 0 1)
       \<bind> (\<lambda>g. SetCell_cached g 0 1 1) \<bind> (\<lambda>g. SetCell_cached g 1 1 1)"

section \<open>Loops and machine integers\<close>

lemma i64_id: "is_i64 n \<Longrightarrow> i64 n = n"
  unfolding i64_def is_i64_def by (rule signed_take_bit_int_eq_self) simp_all

lemma for_loop_done: "n \<le> i \<Longrightarrow> for_loop i n body s = Some s"
  by (subst for_loop.simps) simp

lemma for_loop_step:
  "i < n \<Longrightarrow> for_loop i n body s = Option.bind (body i s) (for_loop (i + 1) n body)"
  by (subst for_loop.simps) (simp split: option.splits)

lemma for_loop_invariant:
  assumes "I i s" and "i \<le> n"
    and "\<And>j t. i \<le> j \<Longrightarrow> j < n \<Longrightarrow> I j t \<Longrightarrow> \<exists>t'. body j t = Some t' \<and> I (j + 1) t'"
  shows "\<exists>t. for_loop i n body s = Some t \<and> I n t"
  using assms
proof (induction i n body s rule: for_loop.induct)
  case (1 i n body s)
  show ?case
  proof (cases "i < n")
    case False
    with "1.prems" show ?thesis by (simp add: for_loop_done)
  next
    case True
    from "1.prems"(3) [of i s] "1.prems"(1) True
    obtain t' where t': "body i s = Some t'" "I (i + 1) t'" by auto
    have "\<exists>t. for_loop (i + 1) n body t' = Some t \<and> I n t"
    proof (rule "1.IH" [OF True t'(1) t'(2)])
      show "i + 1 \<le> n" using True by simp
      fix j t assume "i + 1 \<le> j" "j < n" "I j t"
      then show "\<exists>t'. body j t = Some t' \<and> I (j + 1) t'"
        using "1.prems"(3) [of j t] by simp
    qed
    with True t' show ?thesis by (simp add: for_loop_step)
  qed
qed

lemma for_loop_3:
  "for_loop (- 1) 2 body s =
     Option.bind (Option.bind (body (- 1) s) (body 0)) (body 1)"
  by (simp add: for_loop_step for_loop_done split: Option.bind_splits)

section \<open>The bit-packed engine\<close>

lemma sdiv_nonneg: "0 \<le> k \<Longrightarrow> k sdiv 64 = k div (64::int)"
  by (simp add: signed_divide_int_def sgn_if)

lemma smod_nonneg: "0 \<le> k \<Longrightarrow> k smod 64 = k mod (64::int)"
  by (simp add: signed_modulo_int_def sgn_if)

lemma lin_range:
  assumes "0 \<le> x" "x < w" "0 \<le> y" "y < h"
  shows "0 \<le> y * w + x \<and> y * w + x < w * (h::int)"
proof -
  have "y * w \<le> (h - 1) * w" using assms by (intro mult_right_mono) auto
  then have "y * w + x < (h - 1) * w + w" using assms by linarith
  moreover have "(h - 1) * w + w = w * h" by (simp add: algebra_simps)
  moreover have "0 \<le> y * w" using assms by simp
  ultimately show ?thesis using assms by simp
qed

lemma lin_inj:
  assumes "0 \<le> a" "a < w" "0 \<le> x" "x < w" "b * w + a = y * w + (x::int)"
  shows "a = x \<and> b = y"
proof -
  have "(b * w + a) div w = b" "(y * w + x) div w = y" using assms(1-4) by simp_all
  moreover have "(b * w + a) div w = (y * w + x) div w" by (simp only: assms(5))
  ultimately have "b = y" by (simp only:)
  with assms(5) show ?thesis by simp
qed

lemma getBitIndex_wf:
  assumes "wf_bits g" "in_bounds_bits g x y"
  shows "getBitIndex g x y =
           ((y * width_bits g + x) div 64, nat ((y * width_bits g + x) mod 64))"
    and "0 \<le> (y * width_bits g + x) div 64"
    and "(y * width_bits g + x) div 64 < int (length (cells_bits g))"
proof -
  let ?w = "width_bits g" and ?h = "height_bits g"
  let ?lin = "y * ?w + x"
  from assms have b: "0 \<le> x" "x < ?w" "0 \<le> y" "y < ?h"
    by (simp_all add: in_bounds_bits_def)
  from lin_range [OF b] have r: "0 \<le> ?lin" "?lin < ?w * ?h" by simp_all
  from assms(1) have t: "?w * ?h + 63 < 2 ^ 63"
    and len: "int (length (cells_bits g)) = (?w * ?h + 63) div 64"
    by (simp_all add: wf_bits_def)
  have yw: "0 \<le> y * ?w" "y * ?w \<le> ?lin" using b by simp_all
  have "is_i64 (y * ?w)" using yw r t by (simp add: is_i64_def)
  moreover have "is_i64 ?lin" using r t by (simp add: is_i64_def)
  ultimately have "i64 (i64 (y * ?w) + x) = ?lin" by (simp add: i64_id)
  moreover have "take_bit 64 (?lin mod 64) = ?lin mod 64"
    by (rule take_bit_int_eq_self) simp_all
  ultimately show "getBitIndex g x y = (?lin div 64, nat (?lin mod 64))"
    using r by (simp add: getBitIndex_def Let_def sdiv_nonneg smod_nonneg)
  show "0 \<le> ?lin div 64" using r by simp
  have "?lin div 64 < (?w * ?h + 63) div 64" using r by linarith
  with len show "?lin div 64 < int (length (cells_bits g))" by simp
qed

lemma write_bit_word:
  "n < 64 \<Longrightarrow> m < 64 \<Longrightarrow>
   bit (if c then (w :: uint64) OR push_bit n 1 else w AND NOT (push_bit n 1)) m =
     (if m = n then c else bit w m)"
  by (auto simp add: bit_simps)

lemma GetCell_bits_wf:
  assumes "wf_bits g" "in_bounds_bits g x y"
  shows "GetCell_bits g x y = Some (if alive_bits g x y then 1 else 0)"
proof -
  show ?thesis
    using getBitIndex_wf [OF assms] assms(2)
    by (simp add: GetCell_bits_def at_def alive_bits_def and_exp_eq_0_iff_not_bit)
qed

lemma SetCell_bits_wf:
  assumes wf: "wf_bits g" and ib: "in_bounds_bits g x y"
  shows "\<exists>g'. SetCell_bits g x y v = Some g' \<and> wf_bits g' \<and>
           width_bits g' = width_bits g \<and> height_bits g' = height_bits g \<and>
           (\<forall>a b. in_bounds_bits g a b \<longrightarrow>
              alive_bits g' a b = (if a = x \<and> b = y then v = 1 else alive_bits g a b))"
proof -
  let ?w = "width_bits g"
  let ?lin = "y * ?w + x"
  let ?i = "nat (?lin div 64)" and ?n = "nat (?lin mod 64)"
  let ?old = "cells_bits g ! ?i"
  let ?new = "if v = 1 then ?old OR push_bit ?n 1 else ?old AND NOT (push_bit ?n 1)"
  let ?g' = "g\<lparr>cells_bits := (cells_bits g)[?i := ?new]\<rparr>"
  note idx = getBitIndex_wf [OF wf ib]
  have i_len: "?i < length (cells_bits g)" using idx(2,3) by linarith
  have n64: "?n < 64" by simp
  have set: "SetCell_bits g x y v = Some ?g'"
    using idx ib by (simp add: SetCell_bits_def at_def upd_def)
  have wf': "wf_bits ?g'" using wf by (simp add: wf_bits_def)
  have cells: "alive_bits ?g' a b = (if a = x \<and> b = y then v = 1 else alive_bits g a b)"
    if ab: "in_bounds_bits g a b" for a b
  proof -
    let ?lin' = "b * ?w + a"
    let ?j = "nat (?lin' div 64)" and ?m = "nat (?lin' mod 64)"
    note idx' = getBitIndex_wf [OF wf ab]
    have m64: "?m < 64" by simp
    have lin0: "0 \<le> ?lin" "0 \<le> ?lin'"
      using lin_range [of x ?w y "height_bits g"] lin_range [of a ?w b "height_bits g"] ib ab
      by (simp_all add: in_bounds_bits_def)
    have same: "(?j = ?i \<and> ?m = ?n) \<longleftrightarrow> (a = x \<and> b = y)"
    proof
      assume "?j = ?i \<and> ?m = ?n"
      then have "?lin' div 64 = ?lin div 64" "?lin' mod 64 = ?lin mod 64"
        using lin0 by (simp_all add: nat_eq_iff pos_imp_zdiv_nonneg_iff)
      then have "?lin' = ?lin" by (metis mult_div_mod_eq)
      then show "a = x \<and> b = y"
        using lin_inj [of a ?w x b y] ib ab by (simp add: in_bounds_bits_def)
    qed simp
    show ?thesis
    proof (cases "?j = ?i")
      case True
      then have "alive_bits ?g' a b = bit ?new ?m"
        using i_len by (simp add: alive_bits_def)
      also have "\<dots> = (if ?m = ?n then v = 1 else bit ?old ?m)"
        by (rule write_bit_word [OF n64 m64])
      also have "\<dots> = (if a = x \<and> b = y then v = 1 else alive_bits g a b)"
        using same True by (auto simp add: alive_bits_def)
      finally show ?thesis .
    next
      case False
      then have "alive_bits ?g' a b = alive_bits g a b"
        by (simp add: alive_bits_def)
      with False same show ?thesis by auto
    qed
  qed
  from set wf' cells show ?thesis by (intro exI [of _ ?g']) simp
qed

lemma value_bits_range: "0 \<le> value_bits g a b \<and> value_bits g a b \<le> 1"
  by (simp add: value_bits_def)

lemma scan_step_bits_centre: "scan_step_bits g x y 0 0 c = Some c"
  by (simp add: scan_step_bits_def)

lemma scan_step_bits_wf:
  assumes "wf_bits g" "in_bounds_bits g x y"
    and "dx = - 1 \<or> dx = 0 \<or> dx = 1" "dy = - 1 \<or> dy = 0 \<or> dy = 1" "\<not> (dx = 0 \<and> dy = 0)"
    and "0 \<le> c" "c \<le> 8"
  shows "scan_step_bits g x y dy dx c = Some (c + value_bits g (x + dx) (y + dy))"
proof -
  from assms(1,2) have r: "0 \<le> x" "x < 2 ^ 63 - 1" "0 \<le> y" "y < 2 ^ 63 - 1"
    by (simp_all add: wf_bits_def in_bounds_bits_def)
  have "is_i64 (x + dx)" "is_i64 (y + dy)" using r assms(3,4) by (auto simp add: is_i64_def)
  then have xy: "i64 (x + dx) = x + dx" "i64 (y + dy) = y + dy" by (simp_all add: i64_id)
  have c: "i64 (c + 1) = c + 1" using assms(6,7) by (simp add: i64_id is_i64_def)
  have c0: "i64 c = c" using assms(6,7) by (simp add: i64_id is_i64_def)
  show ?thesis
  proof (cases "in_bounds_bits g (x + dx) (y + dy)")
    case True
    from GetCell_bits_wf [OF assms(1) True] True assms(5) show ?thesis
      by (simp add: scan_step_bits_def Let_def xy c c0 value_bits_def)
  next
    case False
    with assms(5) show ?thesis
      by (simp add: scan_step_bits_def Let_def xy value_bits_def)
  qed
qed

lemma scanForLifeforms_bits_wf:
  assumes "wf_bits g" "in_bounds_bits g x y"
  shows "scanForLifeforms_bits g x y = Some (count_bits g x y)"
  using value_bits_range [of g "x - 1" "y - 1"] value_bits_range [of g x "y - 1"]
    value_bits_range [of g "x + 1" "y - 1"] value_bits_range [of g "x - 1" y]
    value_bits_range [of g "x + 1" y] value_bits_range [of g "x - 1" "y + 1"]
    value_bits_range [of g x "y + 1"] value_bits_range [of g "x + 1" "y + 1"]
  by (simp add: scanForLifeforms_bits_def for_loop_3 scan_step_bits_centre
      scan_step_bits_wf [OF assms] count_bits_def moore_def)

lemma deref_update_same: "q < length hp \<Longrightarrow> deref (hp[q := n]) q = Some n"
  by (simp add: deref_def)

lemma deref_update_other: "p \<noteq> q \<Longrightarrow> deref (hp[q := n]) p = deref hp p"
  by (simp add: deref_def)

lemma deref_length: "deref hp p = Some g \<Longrightarrow> p < length hp"
  by (simp add: deref_def split: if_splits)

lemma deref_update_id: "deref hp q = Some n \<Longrightarrow> hp = hp[q := n]"
  by (auto simp add: deref_def split: if_splits)

lemma evolved_bits_cong:
  "evolved_bits g n D \<Longrightarrow> (\<And>a b. in_bounds_bits g a b \<Longrightarrow> D a b = D' a b) \<Longrightarrow>
   evolved_bits g n D'"
  by (simp add: evolved_bits_def)

lemma evolve_cell_bits_wf:
  assumes g: "deref hp p = Some g" and wf: "wf_bits g" and ib: "in_bounds_bits g x y"
    and n: "deref hp q = Some n" and ev: "evolved_bits g n D" and fresh: "\<not> D x y"
  shows "\<exists>n'. evolve_cell_bits p q y x hp = Some (hp[q := n']) \<and>
           evolved_bits g n' (\<lambda>a b. D a b \<or> (a = x \<and> b = y))"
proof -
  let ?v = "if lives (alive_bits g x y) (count_bits g x y) then 1 else 0 :: byte"
  from ev have wfn: "wf_bits n" and dims: "width_bits n = width_bits g" "height_bits n = height_bits g"
    and old: "\<And>a b. in_bounds_bits g a b \<Longrightarrow>
                alive_bits n a b = (D a b \<and> lives (alive_bits g a b) (count_bits g a b))"
    by (simp_all add: evolved_bits_def)
  have ibn: "in_bounds_bits n a b = in_bounds_bits g a b" for a b
    by (simp add: in_bounds_bits_def dims)
  from SetCell_bits_wf [OF wfn, of x y ?v] ib ibn
  obtain n' where n': "SetCell_bits n x y ?v = Some n'" "wf_bits n'"
      "width_bits n' = width_bits n" "height_bits n' = height_bits n"
      "\<And>a b. in_bounds_bits g a b \<Longrightarrow>
         alive_bits n' a b = (if a = x \<and> b = y then ?v = 1 else alive_bits n a b)"
    by auto
  have step: "evolve_cell_bits p q y x hp = with_grid hp q (\<lambda>n. SetCell_bits n x y ?v)"
    using g scanForLifeforms_bits_wf [OF wf ib] GetCell_bits_wf [OF wf ib]
    by (simp add: evolve_cell_bits_def lives_def)
  have "evolve_cell_bits p q y x hp = Some (hp[q := n'])"
    using n n'(1) by (simp add: step with_grid_def)
  moreover have "evolved_bits g n' (\<lambda>a b. D a b \<or> (a = x \<and> b = y))"
    using n'(2-4) dims old fresh by (auto simp add: evolved_bits_def n'(5))
  ultimately show ?thesis by blast
qed

lemma evolve_row_bits_wf:
  assumes g: "deref hp p = Some g" and wf: "wf_bits g" and y: "0 \<le> y" "y < height_bits g"
    and n: "deref hp q = Some n" and pq: "p \<noteq> q" and ev: "evolved_bits g n (\<lambda>a b. b < y)"
  shows "\<exists>n'. for_loop 0 (width_bits g) (evolve_cell_bits p q y) hp = Some (hp[q := n']) \<and>
           evolved_bits g n' (\<lambda>a b. b < y + 1)"
proof -
  let ?I = "\<lambda>x hp'. \<exists>n'. hp' = hp[q := n'] \<and> evolved_bits g n' (\<lambda>a b. b < y \<or> (b = y \<and> a < x))"
  have q: "q < length hp" using n by (rule deref_length)
  have "\<exists>t. for_loop 0 (width_bits g) (evolve_cell_bits p q y) hp = Some t \<and> ?I (width_bits g) t"
  proof (rule for_loop_invariant [where I = ?I])
    have "hp = hp[q := n]" using n by (rule deref_update_id)
    moreover have "evolved_bits g n (\<lambda>a b. b < y \<or> (b = y \<and> a < 0))"
      by (rule evolved_bits_cong [OF ev]) (auto simp add: in_bounds_bits_def)
    ultimately show "?I 0 hp" by blast
    show "0 \<le> width_bits g" using wf by (simp add: wf_bits_def)
    fix x t assume x: "0 \<le> x" "x < width_bits g" and "?I x t"
    then obtain m where m: "t = hp[q := m]"
      "evolved_bits g m (\<lambda>a b. b < y \<or> (b = y \<and> a < x))" by blast
    have "\<exists>n'. evolve_cell_bits p q y x t = Some (t[q := n']) \<and>
            evolved_bits g n' (\<lambda>a b. (b < y \<or> (b = y \<and> a < x)) \<or> (a = x \<and> b = y))"
      by (rule evolve_cell_bits_wf [OF _ wf _ _ m(2)])
        (use g pq q x y in \<open>simp_all add: m(1) deref_update_other deref_update_same in_bounds_bits_def\<close>)
    then obtain n' where n': "evolve_cell_bits p q y x t = Some (t[q := n'])"
      "evolved_bits g n' (\<lambda>a b. (b < y \<or> (b = y \<and> a < x)) \<or> (a = x \<and> b = y))" by blast
    have "evolved_bits g n' (\<lambda>a b. b < y \<or> (b = y \<and> a < x + 1))"
      by (rule evolved_bits_cong [OF n'(2)]) auto
    with n'(1) show "\<exists>t'. evolve_cell_bits p q y x t = Some t' \<and> ?I (x + 1) t'"
      by (auto simp add: m(1))
  qed
  then obtain n' where n': "for_loop 0 (width_bits g) (evolve_cell_bits p q y) hp = Some (hp[q := n'])"
    "evolved_bits g n' (\<lambda>a b. b < y \<or> (b = y \<and> a < width_bits g))" by blast
  have "evolved_bits g n' (\<lambda>a b. b < y + 1)"
    by (rule evolved_bits_cong [OF n'(2)]) (auto simp add: in_bounds_bits_def)
  with n'(1) show ?thesis by blast
qed

lemma evolve_rows_bits_wf:
  assumes g: "deref hp p = Some g" and wf: "wf_bits g"
    and n: "deref hp q = Some n" and pq: "p \<noteq> q" and ev: "evolved_bits g n (\<lambda>a b. False)"
  shows "\<exists>n'. for_loop 0 (height_bits g)
                 (\<lambda>y. for_loop 0 (width_bits g) (evolve_cell_bits p q y)) hp = Some (hp[q := n']) \<and>
           evolved_bits g n' (\<lambda>a b. True)"
proof -
  let ?I = "\<lambda>y hp'. \<exists>n'. hp' = hp[q := n'] \<and> evolved_bits g n' (\<lambda>a b. b < y)"
  let ?body = "\<lambda>y. for_loop 0 (width_bits g) (evolve_cell_bits p q y)"
  have q: "q < length hp" using n by (rule deref_length)
  have "\<exists>t. for_loop 0 (height_bits g) ?body hp = Some t \<and> ?I (height_bits g) t"
  proof (rule for_loop_invariant [where I = ?I])
    have "hp = hp[q := n]" using n by (rule deref_update_id)
    moreover have "evolved_bits g n (\<lambda>a b. b < 0)"
      by (rule evolved_bits_cong [OF ev]) (auto simp add: in_bounds_bits_def)
    ultimately show "?I 0 hp" by blast
    show "0 \<le> height_bits g" using wf by (simp add: wf_bits_def)
    fix y t assume y: "0 \<le> y" "y < height_bits g" and "?I y t"
    then obtain m where m: "t = hp[q := m]" "evolved_bits g m (\<lambda>a b. b < y)" by blast
    have "\<exists>n'. ?body y t = Some (t[q := n']) \<and> evolved_bits g n' (\<lambda>a b. b < y + 1)"
      by (rule evolve_row_bits_wf [OF _ wf y _ pq m(2)])
        (use g pq q in \<open>simp_all add: m(1) deref_update_other deref_update_same\<close>)
    then show "\<exists>t'. ?body y t = Some t' \<and> ?I (y + 1) t'"
      by (auto simp add: m(1))
  qed
  then obtain n' where n': "for_loop 0 (height_bits g) ?body hp = Some (hp[q := n'])"
    "evolved_bits g n' (\<lambda>a b. b < height_bits g)" by blast
  have "evolved_bits g n' (\<lambda>a b. True)"
    by (rule evolved_bits_cong [OF n'(2)]) (auto simp add: in_bounds_bits_def)
  with n'(1) show ?thesis by blast
qed

lemma NewGrid_bits_wf:
  assumes "0 \<le> w" "w < 2 ^ 63" "0 \<le> h" "h < 2 ^ 63" "w * h + 63 < 2 ^ 63"
  shows "\<exists>n. NewGrid_bits w h = Some n \<and> wf_bits n \<and> width_bits n = w \<and> height_bits n = h \<and>
           (\<forall>a b. in_bounds_bits n a b \<longrightarrow> \<not> alive_bits n a b)"
proof -
  let ?k = "(w * h + 63) div 64"
  let ?n = "\<lparr>width_bits = w, height_bits = h, cells_bits = replicate (nat ?k) (0 :: uint64)\<rparr>"
  have wh: "0 \<le> w * h" using assms by simp
  then have "is_i64 (w * h)" "is_i64 (w * h + 63)" using assms(5) by (simp_all add: is_i64_def)
  then have "NewGrid_bits w h = Some ?n"
    using wh by (simp add: NewGrid_bits_def i64_id sdiv_nonneg make_slice_def Let_def)
  moreover have wfn: "wf_bits ?n" using assms wh by (simp add: wf_bits_def)
  moreover have "\<not> alive_bits ?n a b" if "in_bounds_bits ?n a b" for a b
  proof -
    from getBitIndex_wf(2,3) [OF wfn that]
    have "nat ((b * w + a) div 64) < nat ?k" by (simp split: if_splits)
    then show ?thesis by (simp add: alive_bits_def)
  qed
  ultimately show ?thesis by (intro exI [of _ ?n]) simp
qed

lemma BoldlyGo_bits_wf:
  assumes g: "deref hp p = Some g" and wf: "wf_bits g"
  shows "\<exists>n. BoldlyGo_bits hp p = Some (hp @ [n], length hp) \<and> evolved_bits g n (\<lambda>a b. True)"
proof -
  from wf NewGrid_bits_wf [of "width_bits g" "height_bits g"]
  obtain n0 where n0: "NewGrid_bits (width_bits g) (height_bits g) = Some n0" "wf_bits n0"
      "width_bits n0 = width_bits g" "height_bits n0 = height_bits g"
      "\<And>a b. in_bounds_bits n0 a b \<Longrightarrow> \<not> alive_bits n0 a b"
    by (auto simp add: wf_bits_def)
  let ?hp = "hp @ [n0]" and ?q = "length hp"
  have p: "p < length hp" using g by (rule deref_length)
  have ev0: "evolved_bits g n0 (\<lambda>a b. False)"
    using n0 by (simp add: evolved_bits_def in_bounds_bits_def)
  have "\<exists>n'. for_loop 0 (height_bits g)
                 (\<lambda>y. for_loop 0 (width_bits g) (evolve_cell_bits p ?q y)) ?hp = Some (?hp[?q := n']) \<and>
           evolved_bits g n' (\<lambda>a b. True)"
    by (rule evolve_rows_bits_wf [OF _ wf _ _ ev0])
      (use g p in \<open>simp_all add: deref_def nth_append\<close>)
  then obtain n' where n': "for_loop 0 (height_bits g)
      (\<lambda>y. for_loop 0 (width_bits g) (evolve_cell_bits p ?q y)) ?hp = Some (hp @ [n'])"
    "evolved_bits g n' (\<lambda>a b. True)" by auto
  then show ?thesis using g n0(1) by (simp add: BoldlyGo_bits_def alloc_def)
qed

lemma moore_set:
  "set (moore x y) = {(a, b). \<bar>a - x\<bar> \<le> 1 \<and> \<bar>b - y\<bar> \<le> 1 \<and> (a, b) \<noteq> (x, y)}"
proof (intro set_eqI iffI)
  fix ab assume "ab \<in> set (moore x y)"
  then show "ab \<in> {(a, b). \<bar>a - x\<bar> \<le> 1 \<and> \<bar>b - y\<bar> \<le> 1 \<and> (a, b) \<noteq> (x, y)}"
    by (auto simp add: moore_def)
next
  fix ab assume ab: "ab \<in> {(a, b). \<bar>a - x\<bar> \<le> 1 \<and> \<bar>b - y\<bar> \<le> 1 \<and> (a, b) \<noteq> (x, y)}"
  obtain a b where [simp]: "ab = (a, b)" by (cases ab)
  from ab have "a = x - 1 \<or> a = x \<or> a = x + 1" "b = y - 1 \<or> b = y \<or> b = y + 1" "\<not> (a = x \<and> b = y)"
    by auto
  then show "ab \<in> set (moore x y)"
    by (auto simp add: moore_def)
qed

lemma moore_distinct: "distinct (moore x y)"
  by (simp add: moore_def)



section \<open>The rules of the game\<close>



section \<open>Out-of-bounds access\<close>

text \<open>
  C3. For every grid, whatever its contents, and every coordinate outside
  \<open>[0,width) \<times> [0,height)\<close>, \<open>GetCell\<close> returns 0 and \<open>SetCell\<close> returns the grid
  unchanged; neither panics. This holds for \<open>grid.go\<close> and the byte-array engine, for the
  bit-packed engine and for the cached engine.
\<close>

theorem out_of_bounds_access:
  "(\<not> in_bounds g x y \<longrightarrow>
      GetCell g x y = Some 0 \<and> SetCell_bool g x y alive = Some g \<and> SetCell g x y v = Some g) \<and>
   (\<not> in_bounds_bits b x y \<longrightarrow> GetCell_bits b x y = Some 0 \<and> SetCell_bits b x y v = Some b) \<and>
   (\<not> in_bounds c x y \<longrightarrow> GetCell c x y = Some 0 \<and> SetCell_cached c x y v = Some c)"
  by (simp add: GetCell_def SetCell_bool_def SetCell_def GetCell_bits_def SetCell_bits_def
      SetCell_cached_def)

theorem out_of_bounds_access_witness:
  "\<not> in_bounds example_grid 3 1 \<and> GetCell example_grid 3 1 = Some 0 \<and>
   SetCell_bool example_grid 3 1 True = Some example_grid \<and>
   SetCell example_grid 3 1 1 = Some example_grid \<and>
   \<not> in_bounds_bits example_bits 3 1 \<and> GetCell_bits example_bits 3 1 = Some 0 \<and>
   SetCell_bits example_bits 3 1 1 = Some example_bits \<and>
   \<not> in_bounds example_cached 3 1 \<and> GetCell example_cached 3 1 = Some 0 \<and>
   SetCell_cached example_cached 3 1 1 = Some example_cached"
proof -
  have a: "\<not> in_bounds example_grid 3 1"
    by (simp add: in_bounds_def example_grid_def)
  have b: "\<not> in_bounds_bits example_bits 3 1"
    by (simp add: in_bounds_bits_def example_bits_def)
  have c: "\<not> in_bounds example_cached 3 1"
    by (simp add: in_bounds_def example_cached_def)
  from a b c out_of_bounds_access [of example_grid 3 1 True 1 example_bits example_cached]
  show ?thesis by simp
qed

section \<open>The byte-array engine\<close>

lemma wf_row:
  assumes "wf_grid g" "0 \<le> y" "y < height g"
  shows "nat y < length (cells g)" and "int (length (cells g ! nat y)) = width g"
proof -
  from assms have "y < int (length (cells g))" by (simp add: wf_grid_def)
  with assms(2) show l: "nat y < length (cells g)" by linarith
  then have "cells g ! nat y \<in> set (cells g)" by simp
  with assms(1) show "int (length (cells g ! nat y)) = width g" by (simp add: wf_grid_def)
qed

lemma cell_at_wf:
  assumes "wf_grid g" "in_bounds g x y"
  shows "cell_at (cells g) x y = Some (cells g ! nat y ! nat x)"
  using assms wf_row [of g y]
  by (simp add: cell_at_def at_def in_bounds_def wf_grid_def)

lemma cell_upd_wf:
  assumes "wf_grid g" "in_bounds g x y"
  shows "cell_upd (cells g) x y v = Some ((cells g)[nat y := (cells g ! nat y)[nat x := v]])"
  using assms wf_row [of g y]
  by (simp add: cell_upd_def at_def upd_def in_bounds_def wf_grid_def)

lemma wf_update:
  assumes "wf_grid g" "in_bounds g x y"
  shows "wf_grid (g\<lparr>cells := (cells g)[nat y := (cells g ! nat y)[nat x := v]]\<rparr>)"
proof -
  have "int (length row) = width g"
    if "row \<in> set ((cells g)[nat y := (cells g ! nat y)[nat x := v]])" for row
  proof -
    from that have "row = (cells g ! nat y)[nat x := v] \<or> row \<in> set (cells g)"
      by (auto dest: set_update_subset_insert [THEN subsetD])
    then show ?thesis
      using assms wf_row [of g y] by (auto simp add: in_bounds_def wf_grid_def)
  qed
  with assms(1) show ?thesis by (simp add: wf_grid_def)
qed

lemma nth_update2:
  assumes "nat y < length cs" "nat x < length (cs ! nat y)" "0 \<le> x" "0 \<le> y" "0 \<le> a" "0 \<le> b"
  shows "cs[nat y := (cs ! nat y)[nat x := v]] ! nat b ! nat a =
           (if a = x \<and> b = y then v else cs ! nat b ! nat a)"
  using assms by (auto simp add: nth_list_update nat_eq_iff)

lemma GetCell_wf:
  "wf_grid g \<Longrightarrow> in_bounds g x y \<Longrightarrow> GetCell g x y = Some (cells g ! nat y ! nat x)"
  by (simp add: GetCell_def cell_at_wf)

lemma value_at_range: "0 \<le> value_at g a b \<and> value_at g a b \<le> 255"
proof -
  have "uint (w :: byte) \<le> 255" for w using uint_bounded [of w] by simp
  then show ?thesis by (simp add: value_at_def)
qed

lemma scan_step_centre: "scan_step g x y 0 0 c = Some c"
  by (simp add: scan_step_def)

lemma scan_step_wf:
  assumes "wf_grid g" "in_bounds g x y"
    and "dx = - 1 \<or> dx = 0 \<or> dx = 1" "dy = - 1 \<or> dy = 0 \<or> dy = 1" "\<not> (dx = 0 \<and> dy = 0)"
    and "0 \<le> c" "c \<le> 2040"
  shows "scan_step g x y dy dx c = Some (c + value_at g (x + dx) (y + dy))"
proof -
  from assms(1,2) have r: "0 \<le> x" "x < 2 ^ 63 - 1" "0 \<le> y" "y < 2 ^ 63 - 1"
    by (simp_all add: wf_grid_def in_bounds_def)
  have "is_i64 (x + dx)" "is_i64 (y + dy)" using r assms(3,4) by (auto simp add: is_i64_def)
  then have xy: "i64 (x + dx) = x + dx" "i64 (y + dy) = y + dy" by (simp_all add: i64_id)
  from assms(5) have ne: "(dx = 0 \<and> dy = 0) = False" by simp
  show ?thesis
  proof (cases "in_bounds g (x + dx) (y + dy)")
    case True
    let ?v = "value_at g (x + dx) (y + dy)"
    have "is_i64 (c + ?v)"
      using assms(6,7) value_at_range [of g "x + dx" "y + dy"] by (simp add: is_i64_def)
    then have "i64 (c + ?v) = c + ?v" by (rule i64_id)
    with cell_at_wf [OF assms(1) True] True show ?thesis
      by (simp add: scan_step_def Let_def xy value_at_def ne)
  next
    case False
    then show ?thesis
      by (simp add: scan_step_def Let_def xy value_at_def ne)
  qed
qed

lemma scan_loops_wf:
  assumes "wf_grid g" "in_bounds g x y"
  shows "for_loop (- 1) 2 (\<lambda>dy. for_loop (- 1) 2 (scan_step g x y dy)) 0 = Some (count_at g x y)"
  using value_at_range [of g "x - 1" "y - 1"] value_at_range [of g x "y - 1"]
    value_at_range [of g "x + 1" "y - 1"] value_at_range [of g "x - 1" y]
    value_at_range [of g "x + 1" y] value_at_range [of g "x - 1" "y + 1"]
    value_at_range [of g x "y + 1"] value_at_range [of g "x + 1" "y + 1"]
  by (simp add: for_loop_3 scan_step_centre scan_step_wf [OF assms] count_at_def moore_def)

lemma scanForLifeforms_wf:
  "wf_grid g \<Longrightarrow> in_bounds g x y \<Longrightarrow> scanForLifeforms g x y = Some (count_at g x y)"
  by (simp add: scanForLifeforms_def scan_loops_wf)

lemma make_cells_eq:
  assumes "0 \<le> h" "h = 0 \<or> 0 \<le> w"
  shows "make_cells w h = Some (replicate (nat h) (replicate (nat w) 0))"
proof -
  let ?row = "replicate (nat w) (0 :: byte)"
  let ?I = "\<lambda>i cs. cs = replicate (nat i) ?row @ replicate (nat (h - i)) []"
  let ?body = "\<lambda>i cs. make_slice w (0 :: byte) \<bind> (\<lambda>r. upd cs i r)"
  have "\<exists>t. for_loop 0 h ?body (replicate (nat h) []) = Some t \<and> ?I h t"
  proof (rule for_loop_invariant [where I = ?I])
    show "?I 0 (replicate (nat h) [])" by simp
    show "0 \<le> h" by fact
    fix j t assume j: "0 \<le> j" "j < h" and t: "?I j t"
    with assms have w: "0 \<le> w" by auto
    have len: "length t = nat h" using t j by simp
    have "nat (h - j) = Suc (nat (h - (j + 1)))" using j by simp
    then have "t = replicate (nat j) ?row @ [] # replicate (nat (h - (j + 1))) []"
      using t by simp
    then have "t[nat j := ?row] = replicate (nat j) ?row @ ?row # replicate (nat (h - (j + 1))) []"
      by (simp add: list_update_append)
    also have "\<dots> = replicate (nat (j + 1)) ?row @ replicate (nat (h - (j + 1))) []"
      using j by (simp add: nat_add_distrib replicate_add replicate_append_same)
    finally have "?I (j + 1) (t[nat j := ?row])" .
    moreover have "?body j t = Some (t[nat j := ?row])"
      using w j len by (simp add: make_slice_def upd_def)
    ultimately show "\<exists>t'. ?body j t = Some t' \<and> ?I (j + 1) t'" by blast
  qed
  then show ?thesis using assms(1) by (simp add: make_cells_def make_slice_def)
qed

lemma make_cells_None: "h < 0 \<or> (0 < h \<and> w < 0) \<Longrightarrow> make_cells w h = None"
  by (auto simp add: make_cells_def make_slice_def for_loop_step)

lemma SetCell_wf:
  assumes "wf_grid g" "in_bounds g x y"
  shows "SetCell g x y v = Some (g\<lparr>cells := (cells g)[nat y := (cells g ! nat y)[nat x := v]]\<rparr>)"
  using assms by (simp add: SetCell_def cell_upd_wf)

lemma cells_update_nth:
  assumes "wf_grid g" "in_bounds g x y" "in_bounds g a b"
  shows "(cells g)[nat y := (cells g ! nat y)[nat x := v]] ! nat b ! nat a =
           (if a = x \<and> b = y then v else cells g ! nat b ! nat a)"
proof -
  from assms(2) have xy: "0 \<le> x" "x < width g" "0 \<le> y" "y < height g"
    by (simp_all add: in_bounds_def)
  note row = wf_row [OF assms(1) xy(3,4)]
  from row(2) xy(1,2) have "nat x < length (cells g ! nat y)" by linarith
  with row(1) have "nat y < length (cells g)" "nat x < length (cells g ! nat y)"
    by simp_all
  then show ?thesis
    using assms(2,3) by (intro nth_update2) (simp_all add: in_bounds_def)
qed

lemma evolved_cong:
  "evolved g n D \<Longrightarrow> (\<And>a b. in_bounds g a b \<Longrightarrow> D a b = D' a b) \<Longrightarrow> evolved g n D'"
  by (simp add: evolved_def)

lemma evolve_cell_wf:
  assumes g: "deref hp p = Some g" and wf: "wf_grid g" and ib: "in_bounds g x y"
    and n: "deref hp q = Some n" and ev: "evolved g n D" and fresh: "\<not> D x y"
  shows "\<exists>n'. evolve_cell p q y x hp = Some (hp[q := n']) \<and>
           evolved g n' (\<lambda>a b. D a b \<or> (a = x \<and> b = y))"
proof -
  let ?v = "if lives (cells g ! nat y ! nat x = 1) (count_at g x y) then 1 else 0 :: byte"
  let ?n' = "n\<lparr>cells := (cells n)[nat y := (cells n ! nat y)[nat x := ?v]]\<rparr>"
  from ev have wfn: "wf_grid n" and dims: "width n = width g" "height n = height g"
    and old: "\<And>a b. in_bounds g a b \<Longrightarrow> cells n ! nat b ! nat a =
                (if D a b \<and> lives (cells g ! nat b ! nat a = 1) (count_at g a b) then 1 else 0)"
    by (simp_all add: evolved_def)
  have ibn: "in_bounds n a b = in_bounds g a b" for a b
    by (simp add: in_bounds_def dims)
  have step: "evolve_cell p q y x hp = with_grid hp q (\<lambda>n. SetCell n x y ?v)"
    using g scanForLifeforms_wf [OF wf ib] cell_at_wf [OF wf ib]
    by (simp add: evolve_cell_def lives_def)
  have "evolve_cell p q y x hp = Some (hp[q := ?n'])"
    using n SetCell_wf [OF wfn, of x y ?v] ib ibn by (simp add: step with_grid_def)
  moreover have "evolved g ?n' (\<lambda>a b. D a b \<or> (a = x \<and> b = y))"
    unfolding evolved_def
  proof (intro conjI allI impI)
    show "wf_grid ?n'" using wf_update [OF wfn, of x y ?v] ib ibn by simp
    show "width ?n' = width g" "height ?n' = height g" using dims by simp_all
    fix a b assume ab: "in_bounds g a b"
    have "cells ?n' ! nat b ! nat a = (if a = x \<and> b = y then ?v else cells n ! nat b ! nat a)"
      using cells_update_nth [OF wfn, of x y a b ?v] ib ab ibn by simp
    then show "cells ?n' ! nat b ! nat a =
        (if (D a b \<or> a = x \<and> b = y) \<and> lives (cells g ! nat b ! nat a = 1) (count_at g a b)
         then 1 else 0)"
      using old [OF ab] fresh by auto
  qed
  ultimately show ?thesis by blast
qed

lemma evolve_row_wf:
  assumes g: "deref hp p = Some g" and wf: "wf_grid g" and y: "0 \<le> y" "y < height g"
    and n: "deref hp q = Some n" and pq: "p \<noteq> q" and ev: "evolved g n (\<lambda>a b. b < y)"
  shows "\<exists>n'. evolve_row p q y hp = Some (hp[q := n']) \<and> evolved g n' (\<lambda>a b. b < y + 1)"
proof -
  let ?I = "\<lambda>x hp'. \<exists>n'. hp' = hp[q := n'] \<and> evolved g n' (\<lambda>a b. b < y \<or> (b = y \<and> a < x))"
  have q: "q < length hp" using n by (rule deref_length)
  have w0: "0 \<le> width g" using wf_row(2) [OF wf y] by linarith
  have row: "evolve_row p q y hp = for_loop 0 (width g) (evolve_cell p q y) hp"
    using g wf wf_row [OF wf y] y by (simp add: evolve_row_def at_def wf_grid_def)
  have "\<exists>t. for_loop 0 (width g) (evolve_cell p q y) hp = Some t \<and> ?I (width g) t"
  proof (rule for_loop_invariant [where I = ?I])
    have "hp = hp[q := n]" using n by (rule deref_update_id)
    moreover have "evolved g n (\<lambda>a b. b < y \<or> (b = y \<and> a < 0))"
      by (rule evolved_cong [OF ev]) (auto simp add: in_bounds_def)
    ultimately show "?I 0 hp" by blast
    show "0 \<le> width g" by fact
    fix x t assume x: "0 \<le> x" "x < width g" and "?I x t"
    then obtain m where m: "t = hp[q := m]"
      "evolved g m (\<lambda>a b. b < y \<or> (b = y \<and> a < x))" by blast
    have "\<exists>n'. evolve_cell p q y x t = Some (t[q := n']) \<and>
            evolved g n' (\<lambda>a b. (b < y \<or> (b = y \<and> a < x)) \<or> (a = x \<and> b = y))"
      by (rule evolve_cell_wf [OF _ wf _ _ m(2)])
        (use g pq q x y in \<open>simp_all add: m(1) deref_update_other deref_update_same in_bounds_def\<close>)
    then obtain n' where n': "evolve_cell p q y x t = Some (t[q := n'])"
      "evolved g n' (\<lambda>a b. (b < y \<or> (b = y \<and> a < x)) \<or> (a = x \<and> b = y))" by blast
    have "evolved g n' (\<lambda>a b. b < y \<or> (b = y \<and> a < x + 1))"
      by (rule evolved_cong [OF n'(2)]) auto
    with n'(1) show "\<exists>t'. evolve_cell p q y x t = Some t' \<and> ?I (x + 1) t'"
      by (auto simp add: m(1))
  qed
  then obtain n' where n': "for_loop 0 (width g) (evolve_cell p q y) hp = Some (hp[q := n'])"
    "evolved g n' (\<lambda>a b. b < y \<or> (b = y \<and> a < width g))" by blast
  have "evolved g n' (\<lambda>a b. b < y + 1)"
    by (rule evolved_cong [OF n'(2)]) (auto simp add: in_bounds_def)
  with n'(1) row show ?thesis by auto
qed

lemma evolve_rows_wf:
  assumes g: "deref hp p = Some g" and wf: "wf_grid g"
    and n: "deref hp q = Some n" and pq: "p \<noteq> q" and ev: "evolved g n (\<lambda>a b. False)"
  shows "\<exists>n'. for_loop 0 (int (length (cells g))) (evolve_row p q) hp = Some (hp[q := n']) \<and>
           evolved g n' (\<lambda>a b. True)"
proof -
  let ?I = "\<lambda>y hp'. \<exists>n'. hp' = hp[q := n'] \<and> evolved g n' (\<lambda>a b. b < y)"
  have q: "q < length hp" using n by (rule deref_length)
  have h: "int (length (cells g)) = height g" using wf by (simp add: wf_grid_def)
  have "\<exists>t. for_loop 0 (height g) (evolve_row p q) hp = Some t \<and> ?I (height g) t"
  proof (rule for_loop_invariant [where I = ?I])
    have "hp = hp[q := n]" using n by (rule deref_update_id)
    moreover have "evolved g n (\<lambda>a b. b < 0)"
      by (rule evolved_cong [OF ev]) (auto simp add: in_bounds_def)
    ultimately show "?I 0 hp" by blast
    show "0 \<le> height g" using h by linarith
    fix y t assume y: "0 \<le> y" "y < height g" and "?I y t"
    then obtain m where m: "t = hp[q := m]" "evolved g m (\<lambda>a b. b < y)" by blast
    have "\<exists>n'. evolve_row p q y t = Some (t[q := n']) \<and> evolved g n' (\<lambda>a b. b < y + 1)"
      by (rule evolve_row_wf [OF _ wf y _ pq m(2)])
        (use g pq q in \<open>simp_all add: m(1) deref_update_other deref_update_same\<close>)
    then show "\<exists>t'. evolve_row p q y t = Some t' \<and> ?I (y + 1) t'"
      by (auto simp add: m(1))
  qed
  then obtain n' where n': "for_loop 0 (height g) (evolve_row p q) hp = Some (hp[q := n'])"
    "evolved g n' (\<lambda>a b. b < height g)" by blast
  have "evolved g n' (\<lambda>a b. True)"
    by (rule evolved_cong [OF n'(2)]) (auto simp add: in_bounds_def)
  with n'(1) h show ?thesis by auto
qed

lemma wf_dims: "wf_grid g \<Longrightarrow> 0 \<le> height g \<and> (height g = 0 \<or> 0 \<le> width g)"
proof -
  assume wf: "wf_grid g"
  then have h: "0 \<le> height g" by (simp add: wf_grid_def)
  moreover have "0 \<le> width g" if "height g \<noteq> 0"
    using wf_row(2) [OF wf, of 0] h that by linarith
  ultimately show ?thesis by blast
qed

lemma wf_blank:
  assumes "0 \<le> h" "h < 2 ^ 63" "w < 2 ^ 63" "h = 0 \<or> 0 \<le> w"
    and "width g = w" "height g = h" "cells g = replicate (nat h) (replicate (nat w) 0)"
  shows "wf_grid g" and "in_bounds g a b \<Longrightarrow> cells g ! nat b ! nat a = 0"
proof -
  show "wf_grid g" using assms by (auto simp add: wf_grid_def)
  assume "in_bounds g a b"
  then have "nat b < nat h" "nat a < nat w" using assms(5,6) by (auto simp add: in_bounds_def)
  then show "cells g ! nat b ! nat a = 0" by (simp add: assms(7))
qed

lemma BoldlyGo_wf:
  assumes g: "deref hp p = Some g" and wf: "wf_grid g"
  shows "\<exists>n. BoldlyGo hp p = Some (hp @ [n], length hp) \<and> evolved g n (\<lambda>a b. True)"
proof -
  let ?n0 = "\<lparr>width = width g, height = height g,
              cells = replicate (nat (height g)) (replicate (nat (width g)) 0)\<rparr>"
  note d = wf_dims [OF wf]
  have new: "NewGrid (width g) (height g) = Some ?n0"
    using d by (simp add: NewGrid_def make_cells_eq)
  have b: "wf_grid ?n0" "\<And>a b. in_bounds ?n0 a b \<Longrightarrow> cells ?n0 ! nat b ! nat a = 0"
    using wf_blank [of "height g" "width g" ?n0] d wf by (simp_all add: wf_grid_def)
  let ?hp = "hp @ [?n0]" and ?q = "length hp"
  have p: "p < length hp" using g by (rule deref_length)
  have ev0: "evolved g ?n0 (\<lambda>a b. False)"
    using b by (simp add: evolved_def in_bounds_def)
  have "\<exists>n'. for_loop 0 (int (length (cells g))) (evolve_row p ?q) ?hp = Some (?hp[?q := n']) \<and>
           evolved g n' (\<lambda>a b. True)"
    by (rule evolve_rows_wf [OF _ wf _ _ ev0])
      (use g p in \<open>simp_all add: deref_def nth_append\<close>)
  then obtain n' where n': "for_loop 0 (int (length (cells g))) (evolve_row p ?q) ?hp = Some (hp @ [n'])"
    "evolved g n' (\<lambda>a b. True)" by auto
  then show ?thesis using g new by (simp add: BoldlyGo_def alloc_def)
qed

section \<open>Cache keys\<close>

lemma digit_val_digit_char: "d < 10 \<Longrightarrow> digit_val (digit_char d) = d"
  by (simp add: digit_val_def digit_char_def)

lemma digit_char_neq:
  assumes "d < 10"
  shows "digit_char d \<noteq> CHR '',''" and "digit_char d \<noteq> CHR ''-''"
proof -
  have "of_char (digit_char d) = 48 + d" using assms by (simp add: digit_char_def)
  then have "(of_char (digit_char d) :: nat) \<noteq> of_char CHR '',''"
    "(of_char (digit_char d) :: nat) \<noteq> of_char CHR ''-''" by simp_all
  then show "digit_char d \<noteq> CHR '',''" and "digit_char d \<noteq> CHR ''-''" by auto
qed

lemma digits_of_chars: "c \<in> set (digits_of n) \<Longrightarrow> \<exists>d<10. c = digit_char d"
proof (induction n rule: digits_of.induct)
  case (1 n)
  show ?case
  proof (cases "n < 10")
    case True
    with "1.prems" show ?thesis by (subst (asm) digits_of.simps) auto
  next
    case False
    from "1.prems" have "c \<in> set (digits_of (n div 10)) \<or> c = digit_char (n mod 10)"
      using False by (subst (asm) digits_of.simps) auto
    then show ?thesis
    proof
      assume "c \<in> set (digits_of (n div 10))" then show ?thesis using "1.IH" False by simp
    next
      assume "c = digit_char (n mod 10)"
      moreover have "n mod 10 < 10" by simp
      ultimately show ?thesis by blast
    qed
  qed
qed

lemma parse_digits_of: "parse_digits (digits_of n) = n"
proof (induction n rule: digits_of.induct)
  case (1 n)
  show ?case
  proof (cases "n < 10")
    case True
    then show ?thesis
      by (subst digits_of.simps) (simp add: parse_digits_def digit_val_digit_char)
  next
    case False
    with "1.IH" have "parse_digits (digits_of (n div 10)) = n div 10" by simp
    then have "parse_digits (digits_of (n div 10) @ [digit_char (n mod 10)]) =
        10 * (n div 10) + n mod 10"
      by (simp add: parse_digits_def digit_val_digit_char)
    with False show ?thesis by (subst digits_of.simps) simp
  qed
qed

lemma digits_of_inj: "digits_of m = digits_of n \<Longrightarrow> m = n"
  by (metis parse_digits_of)

lemma digits_of_plain:
  assumes "c \<in> set (digits_of n)"
  shows "c \<noteq> CHR '',''" and "c \<noteq> CHR ''-''"
proof -
  from digits_of_chars [OF assms] obtain d where "d < 10" "c = digit_char d" by blast
  then show "c \<noteq> CHR '',''" and "c \<noteq> CHR ''-''" using digit_char_neq by simp_all
qed

lemma itoa_no_comma: "CHR '','' \<notin> set (itoa i)"
proof
  assume "CHR '','' \<in> set (itoa i)"
  then have "CHR '','' \<in> set (digits_of (nat (- i))) \<or> CHR '','' \<in> set (digits_of (nat i))"
    by (simp add: itoa_def split: if_splits)
  then show False using digits_of_plain(1) by blast
qed

lemma digits_of_no_minus: "digits_of n \<noteq> CHR ''-'' # s"
proof
  assume "digits_of n = CHR ''-'' # s"
  then have "CHR ''-'' \<in> set (digits_of n)" by simp
  then show False using digits_of_plain(2) by blast
qed

lemma itoa_inj:
  assumes "itoa i = itoa j"
  shows "i = j"
proof (cases "i < 0"; cases "j < 0")
  assume "i < 0" "j < 0"
  with assms have "digits_of (nat (- i)) = digits_of (nat (- j))" by (simp add: itoa_def)
  then have "nat (- i) = nat (- j)" by (rule digits_of_inj)
  with \<open>i < 0\<close> \<open>j < 0\<close> show ?thesis by simp
next
  assume "i < 0" "\<not> j < 0"
  with assms have "digits_of (nat j) = CHR ''-'' # digits_of (nat (- i))" by (simp add: itoa_def)
  then show ?thesis using digits_of_no_minus by blast
next
  assume "\<not> i < 0" "j < 0"
  with assms have "digits_of (nat i) = CHR ''-'' # digits_of (nat (- j))" by (simp add: itoa_def)
  then show ?thesis using digits_of_no_minus by blast
next
  assume "\<not> i < 0" "\<not> j < 0"
  with assms have "digits_of (nat i) = digits_of (nat j)" by (simp add: itoa_def)
  then have "nat i = nat j" by (rule digits_of_inj)
  with \<open>\<not> i < 0\<close> \<open>\<not> j < 0\<close> show ?thesis by simp
qed

lemma getCacheKey_inj: "getCacheKey x y = getCacheKey a b \<longleftrightarrow> x = a \<and> y = b"
proof
  assume "getCacheKey x y = getCacheKey a b"
  then have "itoa x @ CHR '','' # itoa y = itoa a @ CHR '','' # itoa b"
    by (simp add: getCacheKey_def)
  then have "itoa x = itoa a \<and> itoa y = itoa b"
    by (simp add: append_Cons_eq_iff [OF itoa_no_comma itoa_no_comma])
  then show "x = a \<and> y = b" using itoa_inj by blast
qed simp

section \<open>The cached engine\<close>

lemma block9_set: "set (block9 x y) = {(a, b). \<bar>a - x\<bar> \<le> 1 \<and> \<bar>b - y\<bar> \<le> 1}"
proof (intro set_eqI iffI)
  fix ab assume "ab \<in> set (block9 x y)"
  then show "ab \<in> {(a, b). \<bar>a - x\<bar> \<le> 1 \<and> \<bar>b - y\<bar> \<le> 1}"
    by (auto simp add: block9_def)
next
  fix ab assume ab: "ab \<in> {(a, b). \<bar>a - x\<bar> \<le> 1 \<and> \<bar>b - y\<bar> \<le> 1}"
  obtain a b where [simp]: "ab = (a, b)" by (cases ab)
  from ab have "a = x - 1 \<or> a = x \<or> a = x + 1" "b = y - 1 \<or> b = y \<or> b = y + 1"
    by auto
  then show "ab \<in> set (block9 x y)"
    by (auto simp add: block9_def)
qed

lemma invalidate_at_frame [simp]:
  "width (invalidate_at g ab) = width g" "height (invalidate_at g ab) = height g"
  "cells (invalidate_at g ab) = cells g" "neighborCache (invalidate_at g ab) = neighborCache g"
  by (simp_all add: invalidate_at_def)

lemma invalidate_at_wf [simp]: "wf_grid (invalidate_at g ab) = wf_grid g"
  by (simp add: wf_grid_def)

lemma invalidate_at_in_bounds [simp]: "in_bounds (invalidate_at g ab) = in_bounds g"
  by (simp add: in_bounds_def fun_eq_iff)

lemma invalidate_at_valid:
  "cacheValid (invalidate_at g ab) k =
     (if in_bounds g (fst ab) (snd ab) \<and> k = getCacheKey (fst ab) (snd ab) then Some False
      else cacheValid g k)"
  by (simp add: invalidate_at_def)

lemma invalidate_step_wf:
  assumes "wf_grid g" "in_bounds g x y"
    and "dx = - 1 \<or> dx = 0 \<or> dx = 1" "dy = - 1 \<or> dy = 0 \<or> dy = 1"
  shows "invalidate_step x y dy dx g = Some (invalidate_at g (x + dx, y + dy))"
proof -
  from assms(1,2) have r: "0 \<le> x" "x < 2 ^ 63 - 1" "0 \<le> y" "y < 2 ^ 63 - 1"
    by (simp_all add: wf_grid_def in_bounds_def)
  have "is_i64 (x + dx)" "is_i64 (y + dy)" using r assms(3,4) by (auto simp add: is_i64_def)
  then have xy: "i64 (x + dx) = x + dx" "i64 (y + dy) = y + dy" by (simp_all add: i64_id)
  show ?thesis by (simp add: invalidate_step_def Let_def xy invalidate_at_def)
qed

lemma invalidateNeighborCache_wf:
  assumes "wf_grid g" "in_bounds g x y"
  shows "invalidateNeighborCache g x y = Some (foldl invalidate_at g (block9 x y))"
  using assms
  by (simp add: invalidateNeighborCache_def for_loop_3 invalidate_step_wf block9_def)

lemma foldl_invalidate_frame [simp]:
  "width (foldl invalidate_at g ps) = width g" "height (foldl invalidate_at g ps) = height g"
  "cells (foldl invalidate_at g ps) = cells g"
  "neighborCache (foldl invalidate_at g ps) = neighborCache g"
  by (induction ps arbitrary: g) simp_all

lemma foldl_invalidate_valid:
  "cacheValid (foldl invalidate_at g ps) k =
     (if \<exists>(a, b) \<in> set ps. in_bounds g a b \<and> k = getCacheKey a b then Some False
      else cacheValid g k)"
proof (induction ps arbitrary: g)
  case Nil
  show ?case by simp
next
  case (Cons p ps)
  show ?case
    by (cases p) (auto simp add: Cons.IH invalidate_at_valid)
qed

lemma same_board_refl [simp]: "same_board g g"
  by (simp add: same_board_def)

lemma same_board_trans: "same_board g g' \<Longrightarrow> same_board g' g'' \<Longrightarrow> same_board g g''"
  by (simp add: same_board_def)

lemma same_board_facts:
  assumes "same_board g g'"
  shows "in_bounds g' = in_bounds g" "wf_grid g' = wf_grid g" "value_at g' = value_at g"
    "count_at g' = count_at g"
proof -
  from assms show ib: "in_bounds g' = in_bounds g"
    by (simp add: same_board_def in_bounds_def fun_eq_iff)
  from assms show "wf_grid g' = wf_grid g" by (simp add: same_board_def wf_grid_def)
  from assms ib show v: "value_at g' = value_at g"
    by (simp add: same_board_def value_at_def fun_eq_iff)
  then show "count_at g' = count_at g" by (simp add: count_at_def fun_eq_iff)
qed

lemma count_at_cong:
  assumes "in_bounds g' = in_bounds g"
    and "\<And>a b. (a, b) \<in> set (moore x y) \<Longrightarrow> in_bounds g a b \<Longrightarrow>
           cells g' ! nat b ! nat a = cells g ! nat b ! nat a"
  shows "count_at g' x y = count_at g x y"
proof -
  have "value_at g' a b = value_at g a b" if "(a, b) \<in> set (moore x y)" for a b
    using assms(2) [OF that] assms(1) by (simp add: value_at_def)
  then have "map (\<lambda>(a, b). value_at g' a b) (moore x y) = map (\<lambda>(a, b). value_at g a b) (moore x y)"
    by (intro map_cong) auto
  then show ?thesis unfolding count_at_def by (rule arg_cong [where f = sum_list])
qed

lemma SetCell_cached_wf:
  assumes "wf_grid g" "in_bounds g x y"
  shows "SetCell_cached g x y v =
     Some (if cells g ! nat y ! nat x \<noteq> v
           then foldl invalidate_at
                  (g\<lparr>cells := (cells g)[nat y := (cells g ! nat y)[nat x := v]]\<rparr>) (block9 x y)
           else g\<lparr>cells := (cells g)[nat y := (cells g ! nat y)[nat x := v]]\<rparr>)"
proof -
  let ?g1 = "g\<lparr>cells := (cells g)[nat y := (cells g ! nat y)[nat x := v]]\<rparr>"
  have "wf_grid ?g1" by (rule wf_update [OF assms])
  moreover have "in_bounds ?g1 x y" using assms(2) by (simp add: in_bounds_def)
  ultimately have "invalidateNeighborCache ?g1 x y = Some (foldl invalidate_at ?g1 (block9 x y))"
    by (rule invalidateNeighborCache_wf)
  then show ?thesis
    using assms by (simp add: SetCell_cached_def cell_at_wf cell_upd_wf)
qed

lemma scanForLifeforms_cached_wf:
  assumes "wf_grid g" "in_bounds g x y"
  shows "scanForLifeforms_cached g x y =
     Some (if cacheValid g (getCacheKey x y) = Some True
           then (g, lookup_int (neighborCache g) (getCacheKey x y))
           else (g\<lparr>neighborCache := (neighborCache g)(getCacheKey x y \<mapsto> count_at g x y),
                   cacheValid := (cacheValid g)(getCacheKey x y \<mapsto> True)\<rparr>, count_at g x y))"
  by (simp add: scanForLifeforms_cached_def Let_def scan_loops_wf [OF assms])

lemma scanForLifeforms_cached_ok:
  assumes "wf_grid g" "in_bounds g x y"
  shows "\<exists>g' c. scanForLifeforms_cached g x y = Some (g', c) \<and> same_board g g' \<and>
           (cache_ok g \<longrightarrow> cache_ok g' \<and> c = count_at g x y)"
proof (cases "cacheValid g (getCacheKey x y) = Some True")
  case True
  then show ?thesis
    using assms by (auto simp add: scanForLifeforms_cached_wf cache_ok_def)
next
  case False
  let ?g' = "g\<lparr>neighborCache := (neighborCache g)(getCacheKey x y \<mapsto> count_at g x y),
               cacheValid := (cacheValid g)(getCacheKey x y \<mapsto> True)\<rparr>"
  have sb: "same_board g ?g'" by (simp add: same_board_def)
  have "cache_ok ?g'" if "cache_ok g"
    using that unfolding cache_ok_def same_board_facts [OF sb]
    by (auto simp add: getCacheKey_inj lookup_int_def)
  with False sb show ?thesis
    using assms by (auto simp add: scanForLifeforms_cached_wf)
qed

lemma SetCell_cached_ok:
  assumes wf: "wf_grid g" and ok: "cache_ok g"
  shows "\<exists>g'. SetCell_cached g x y v = Some g' \<and> wf_grid g' \<and> cache_ok g' \<and>
           width g' = width g \<and> height g' = height g"
proof (cases "in_bounds g x y")
  case False
  with wf ok show ?thesis by (simp add: SetCell_cached_def)
next
  case ib: True
  let ?g1 = "g\<lparr>cells := (cells g)[nat y := (cells g ! nat y)[nat x := v]]\<rparr>"
  have wf1: "wf_grid ?g1" by (rule wf_update [OF wf ib])
  have ib1: "in_bounds ?g1 = in_bounds g" by (simp add: in_bounds_def fun_eq_iff)
  have cell1: "cells ?g1 ! nat b ! nat a = (if a = x \<and> b = y then v else cells g ! nat b ! nat a)"
    if "in_bounds g a b" for a b
    using cells_update_nth [OF wf ib that, of v] by simp
  show ?thesis
  proof (cases "cells g ! nat y ! nat x = v")
    case True
    have "?g1 = g" unfolding True [symmetric] by simp
    with True wf ok ib show ?thesis by (simp add: SetCell_cached_wf)
  next
    case False
    let ?g' = "foldl invalidate_at ?g1 (block9 x y)"
    have set: "SetCell_cached g x y v = Some ?g'"
      using False by (simp add: SetCell_cached_wf [OF wf ib])
    have wf': "wf_grid ?g'" using wf1 by (simp add: wf_grid_def)
    have ib': "in_bounds ?g' = in_bounds g" using ib1 by (simp add: in_bounds_def fun_eq_iff)
    have "cache_ok ?g'"
      unfolding cache_ok_def
    proof (intro allI impI)
      fix a b assume ab: "in_bounds ?g' a b"
        and valid: "cacheValid ?g' (getCacheKey a b) = Some True"
      from ab ib' have abg: "in_bounds g a b" by simp
      have far: "\<not> (\<bar>a - x\<bar> \<le> 1 \<and> \<bar>b - y\<bar> \<le> 1)"
      proof
        assume "\<bar>a - x\<bar> \<le> 1 \<and> \<bar>b - y\<bar> \<le> 1"
        then have "(a, b) \<in> set (block9 x y)" by (simp add: block9_set)
        with abg ib1 have "cacheValid ?g' (getCacheKey a b) = Some False"
          by (auto simp add: foldl_invalidate_valid)
        with valid show False by simp
      qed
      then have "cacheValid ?g' (getCacheKey a b) = cacheValid g (getCacheKey a b)"
        by (auto simp add: foldl_invalidate_valid getCacheKey_inj block9_set)
      with valid ok abg have old: "lookup_int (neighborCache g) (getCacheKey a b) = count_at g a b"
        by (simp add: cache_ok_def)
      have "count_at ?g' a b = count_at g a b"
      proof (rule count_at_cong [OF ib'])
        fix c d assume cd: "(c, d) \<in> set (moore a b)" "in_bounds g c d"
        then have "\<not> (c = x \<and> d = y)" using far by (auto simp add: moore_set)
        with cell1 [OF cd(2)] show "cells ?g' ! nat d ! nat c = cells g ! nat d ! nat c" by simp
      qed
      with old show "lookup_int (neighborCache ?g') (getCacheKey a b) = count_at ?g' a b" by simp
    qed
    with set wf' show ?thesis by simp
  qed
qed

text \<open>
  C5. In the cached engine, on a well-formed grid and an in-bounds coordinate: \<open>SetCell\<close>
  with the value the cell already holds leaves every validity flag as it was; with a
  different value it sets the flag of the cell and of each of its in-bounds Moore neighbours
  to invalid.
\<close>

theorem SetCell_cached_invalidation:
  assumes "wf_grid g" and "in_bounds g x y"
  shows "\<exists>g'. SetCell_cached g x y v = Some g' \<and>
           (GetCell g x y = Some v \<longrightarrow> cacheValid g' = cacheValid g) \<and>
           (GetCell g x y \<noteq> Some v \<longrightarrow>
              (\<forall>a b. in_bounds g a b \<and> \<bar>a - x\<bar> \<le> 1 \<and> \<bar>b - y\<bar> \<le> 1 \<longrightarrow>
                 cacheValid g' (getCacheKey a b) = Some False))"
proof -
  let ?g1 = "g\<lparr>cells := (cells g)[nat y := (cells g ! nat y)[nat x := v]]\<rparr>"
  have ib1: "in_bounds ?g1 = in_bounds g" by (simp add: in_bounds_def fun_eq_iff)
  have "cacheValid (foldl invalidate_at ?g1 (block9 x y)) (getCacheKey a b) = Some False"
    if "in_bounds g a b" "\<bar>a - x\<bar> \<le> 1" "\<bar>b - y\<bar> \<le> 1" for a b
  proof -
    from that have "(a, b) \<in> set (block9 x y)" by (simp add: block9_set)
    with that(1) ib1 show ?thesis by (auto simp add: foldl_invalidate_valid)
  qed
  then show ?thesis
    using assms by (simp add: SetCell_cached_wf GetCell_wf)
qed

theorem SetCell_cached_invalidation_witness:
  "wf_grid example_cached \<and> in_bounds example_cached 1 1 \<and>
   (\<exists>g'. SetCell_cached example_cached 1 1 0 = Some g' \<and>
      (GetCell example_cached 1 1 = Some 0 \<longrightarrow> cacheValid g' = cacheValid example_cached) \<and>
      (GetCell example_cached 1 1 \<noteq> Some 0 \<longrightarrow>
         (\<forall>a b. in_bounds example_cached a b \<and> \<bar>a - 1\<bar> \<le> 1 \<and> \<bar>b - 1\<bar> \<le> 1 \<longrightarrow>
            cacheValid g' (getCacheKey a b) = Some False)))"
proof -
  have a: "wf_grid example_cached" by (simp add: wf_grid_def example_cached_def)
  have b: "in_bounds example_cached 1 1" by (simp add: in_bounds_def example_cached_def)
  from SetCell_cached_invalidation [OF a b, of 0] a b show ?thesis by simp
qed

lemma update_pair_overwrite:
  assumes "p \<noteq> q"
  shows "hp[p := a, q := b, p := c, q := d] = hp[p := c, q := d]"
proof -
  from assms have "hp[p := a, q := b, p := c] = hp[p := a, p := c, q := b]"
    by (intro list_update_swap) simp
  then show ?thesis by simp
qed

lemma pass1_cong:
  "pass1 g0 D g n ch \<Longrightarrow> (\<And>a b. in_bounds g0 a b \<Longrightarrow> D a b = D' a b) \<Longrightarrow> pass1 g0 D' g n ch"
  by (simp add: pass1_def)

lemma evolve_cell_cached_wf:
  assumes g: "deref hp p = Some g" and n: "deref hp q = Some n" and pq: "p \<noteq> q"
    and wf0: "wf_grid g0" and ib: "in_bounds g0 x y"
    and inv: "pass1 g0 D g n ch" and fresh: "\<not> D x y"
  shows "\<exists>g' n' ch'. evolve_cell_cached p q y x (hp, ch) = Some (hp[p := g', q := n'], ch') \<and>
           pass1 g0 (\<lambda>a b. D a b \<or> (a = x \<and> b = y)) g' n' ch'"
proof -
  from inv have sb: "same_board g0 g" and wfn: "wf_grid n"
    and dims: "width n = width g0" "height n = height g0"
    and empty: "neighborCache n = Map.empty" "cacheValid n = Map.empty"
    and track: "\<And>a b. in_bounds g0 a b \<Longrightarrow> D a b \<Longrightarrow>
                  cells n ! nat b ! nat a \<noteq> cells g0 ! nat b ! nat a \<Longrightarrow>
                  ch (getCacheKey a b) = Some True"
    and ok: "cache_ok g0 \<Longrightarrow> cache_ok g"
    and new: "\<And>a b. cache_ok g0 \<Longrightarrow> in_bounds g0 a b \<Longrightarrow> D a b \<Longrightarrow>
                cells n ! nat b ! nat a = new_state (cells g0 ! nat b ! nat a) (count_at g0 a b)"
    by (simp_all add: pass1_def)
  note fg = same_board_facts [OF sb]
  have wfg: "wf_grid g" and ibg: "in_bounds g x y" using wf0 ib fg by simp_all
  have ibn: "in_bounds n = in_bounds g0" by (simp add: in_bounds_def fun_eq_iff dims)
  from scanForLifeforms_cached_ok [OF wfg ibg]
  obtain g' c where scan: "scanForLifeforms_cached g x y = Some (g', c)"
    and sb': "same_board g g'"
    and ok': "cache_ok g \<Longrightarrow> cache_ok g' \<and> c = count_at g x y" by blast
  note fg' = same_board_facts [OF sb']
  have sb0: "same_board g0 g'" by (rule same_board_trans [OF sb sb'])
  let ?cur = "cells g0 ! nat y ! nat x"
  let ?new = "new_state ?cur c"
  let ?n' = "n\<lparr>cells := (cells n)[nat y := (cells n ! nat y)[nat x := ?new]]\<rparr>"
  let ?ch' = "if ?cur \<noteq> ?new then ch(getCacheKey x y \<mapsto> True) else ch"
  have cur: "cell_at (cells g') x y = Some ?cur"
    using cell_at_wf [of g' x y] wfg ibg fg' sb0 by (simp add: same_board_def)
  have p: "p < length hp" and q: "q < length hp"
    using g n by (auto dest: deref_length)
  have "evolve_cell_cached p q y x (hp, ch) = Some (hp[p := g', q := ?n'], ?ch')"
    using g scan cur p q pq n cell_upd_wf [OF wfn, of x y ?new] ib ibn
    by (simp add: evolve_cell_cached_def deref_def new_state_def)
  moreover have "pass1 g0 (\<lambda>a b. D a b \<or> (a = x \<and> b = y)) g' ?n' ?ch'"
    unfolding pass1_def
  proof (intro conjI allI impI)
    show "same_board g0 g'" by fact
    show "wf_grid ?n'" using wf_update [OF wfn, of x y ?new] ib ibn by simp
    show "width ?n' = width g0" "height ?n' = height g0" using dims by simp_all
    show "neighborCache ?n' = Map.empty" "cacheValid ?n' = Map.empty" using empty by simp_all
    have cell: "cells ?n' ! nat b ! nat a = (if a = x \<and> b = y then ?new else cells n ! nat b ! nat a)"
      if "in_bounds g0 a b" for a b
      using cells_update_nth [OF wfn, of x y a b ?new] ib ibn that by simp
    {
      fix a b
      assume h: "in_bounds g0 a b \<and> (D a b \<or> a = x \<and> b = y) \<and>
                 cells ?n' ! nat b ! nat a \<noteq> cells g0 ! nat b ! nat a"
      then have ab: "in_bounds g0 a b" by simp
      show "?ch' (getCacheKey a b) = Some True"
      proof (cases "a = x \<and> b = y")
        case True
        with h cell [OF ab] show ?thesis by auto
      next
        case False
        with h cell [OF ab] have "ch (getCacheKey a b) = Some True"
          by (intro track) simp_all
        then show ?thesis by simp
      qed
    }
    assume ok0: "cache_ok g0"
    from ok' [OF ok [OF ok0]] show "cache_ok g'" by simp
    from ok' [OF ok [OF ok0]] fg have c: "c = count_at g0 x y" by simp
    fix a b assume h: "in_bounds g0 a b \<and> (D a b \<or> a = x \<and> b = y)"
    then have ab: "in_bounds g0 a b" by simp
    show "cells ?n' ! nat b ! nat a = new_state (cells g0 ! nat b ! nat a) (count_at g0 a b)"
    proof (cases "a = x \<and> b = y")
      case True
      with cell [OF ab] c show ?thesis by simp
    next
      case False
      with h cell [OF ab] new [OF ok0 ab] show ?thesis by simp
    qed
  qed
  ultimately show ?thesis by blast
qed

section \<open>The two passes of the cached engine\<close>

lemma evolve_row_cached_wf:
  assumes p: "p < length hp" and q: "q < length hp" and pq: "p \<noteq> q"
    and wf0: "wf_grid g0" and y: "0 \<le> y" "y < height g0"
    and inv: "pass1 g0 (\<lambda>a b. b < y) g n ch"
  shows "\<exists>g' n' ch'. evolve_row_cached p q y (hp[p := g, q := n], ch) =
             Some (hp[p := g', q := n'], ch') \<and>
           pass1 g0 (\<lambda>a b. b < y + 1) g' n' ch'"
proof -
  let ?I = "\<lambda>x st. \<exists>g' n' ch'. st = (hp[p := g', q := n'], ch') \<and>
              pass1 g0 (\<lambda>a b. b < y \<or> (b = y \<and> a < x)) g' n' ch'"
  have der: "deref (hp[p := a, q := b]) p = Some a" "deref (hp[p := a, q := b]) q = Some b"
    for a b :: CachedGrid
    using p q pq by (simp_all add: deref_def)
  from inv have sb: "same_board g0 g" by (simp add: pass1_def)
  have wfg: "wf_grid g" using wf0 same_board_facts(2) [OF sb] by simp
  have yg: "y < height g" using y sb by (simp add: same_board_def)
  have w: "width g = width g0" using sb by (simp add: same_board_def)
  have w0: "0 \<le> width g0" using wf_row(2) [OF wf0 y] by linarith
  have row: "evolve_row_cached p q y (hp[p := g, q := n], ch) =
      for_loop 0 (width g0) (evolve_cell_cached p q y) (hp[p := g, q := n], ch)"
    using der wfg wf_row [OF wfg y(1) yg] y(1) yg w
    by (simp add: evolve_row_cached_def at_def wf_grid_def)
  have "\<exists>t. for_loop 0 (width g0) (evolve_cell_cached p q y) (hp[p := g, q := n], ch) = Some t \<and>
          ?I (width g0) t"
  proof (rule for_loop_invariant [where I = ?I])
    have "pass1 g0 (\<lambda>a b. b < y \<or> (b = y \<and> a < 0)) g n ch"
      by (rule pass1_cong [OF inv]) (auto simp add: in_bounds_def)
    then show "?I 0 (hp[p := g, q := n], ch)" by blast
    show "0 \<le> width g0" by fact
    fix x t assume x: "0 \<le> x" "x < width g0" and "?I x t"
    then obtain g1 n1 ch1 where t: "t = (hp[p := g1, q := n1], ch1)"
      and i1: "pass1 g0 (\<lambda>a b. b < y \<or> (b = y \<and> a < x)) g1 n1 ch1" by blast
    have "\<exists>g' n' ch'. evolve_cell_cached p q y x (hp[p := g1, q := n1], ch1) =
              Some (hp[p := g1, q := n1, p := g', q := n'], ch') \<and>
            pass1 g0 (\<lambda>a b. (b < y \<or> (b = y \<and> a < x)) \<or> (a = x \<and> b = y)) g' n' ch'"
      by (rule evolve_cell_cached_wf [OF der pq wf0 _ i1]) (use x y in \<open>simp_all add: in_bounds_def\<close>)
    then obtain g' n' ch' where
      step: "evolve_cell_cached p q y x t = Some (hp[p := g', q := n'], ch')"
      and i2: "pass1 g0 (\<lambda>a b. (b < y \<or> (b = y \<and> a < x)) \<or> (a = x \<and> b = y)) g' n' ch'"
      unfolding t update_pair_overwrite [OF pq] by blast
    have "pass1 g0 (\<lambda>a b. b < y \<or> (b = y \<and> a < x + 1)) g' n' ch'"
      by (rule pass1_cong [OF i2]) auto
    with step show "\<exists>t'. evolve_cell_cached p q y x t = Some t' \<and> ?I (x + 1) t'" by blast
  qed
  then obtain g' n' ch' where
    loop: "for_loop 0 (width g0) (evolve_cell_cached p q y) (hp[p := g, q := n], ch) =
             Some (hp[p := g', q := n'], ch')"
    and i: "pass1 g0 (\<lambda>a b. b < y \<or> (b = y \<and> a < width g0)) g' n' ch'" by blast
  have "pass1 g0 (\<lambda>a b. b < y + 1) g' n' ch'"
    by (rule pass1_cong [OF i]) (auto simp add: in_bounds_def)
  with loop row show ?thesis by auto
qed

lemma evolve_rows_cached_wf:
  assumes p: "p < length hp" and q: "q < length hp" and pq: "p \<noteq> q"
    and wf0: "wf_grid g0" and inv: "pass1 g0 (\<lambda>a b. False) g n ch"
  shows "\<exists>g' n' ch'. for_loop 0 (height g0) (evolve_row_cached p q) (hp[p := g, q := n], ch) =
             Some (hp[p := g', q := n'], ch') \<and>
           pass1 g0 (\<lambda>a b. True) g' n' ch'"
proof -
  let ?I = "\<lambda>y st. \<exists>g' n' ch'. st = (hp[p := g', q := n'], ch') \<and>
              pass1 g0 (\<lambda>a b. b < y) g' n' ch'"
  have "\<exists>t. for_loop 0 (height g0) (evolve_row_cached p q) (hp[p := g, q := n], ch) = Some t \<and>
          ?I (height g0) t"
  proof (rule for_loop_invariant [where I = ?I])
    have "pass1 g0 (\<lambda>a b. b < 0) g n ch"
      by (rule pass1_cong [OF inv]) (auto simp add: in_bounds_def)
    then show "?I 0 (hp[p := g, q := n], ch)" by blast
    show "0 \<le> height g0" using wf_dims [OF wf0] by simp
    fix y t assume y: "0 \<le> y" "y < height g0" and "?I y t"
    then obtain g1 n1 ch1 where t: "t = (hp[p := g1, q := n1], ch1)"
      and i1: "pass1 g0 (\<lambda>a b. b < y) g1 n1 ch1" by blast
    from evolve_row_cached_wf [OF p q pq wf0 y i1]
    show "\<exists>t'. evolve_row_cached p q y t = Some t' \<and> ?I (y + 1) t'"
      unfolding t by blast
  qed
  then obtain g' n' ch' where
    loop: "for_loop 0 (height g0) (evolve_row_cached p q) (hp[p := g, q := n], ch) =
             Some (hp[p := g', q := n'], ch')"
    and i: "pass1 g0 (\<lambda>a b. b < height g0) g' n' ch'" by blast
  have "pass1 g0 (\<lambda>a b. True) g' n' ch'"
    by (rule pass1_cong [OF i]) (auto simp add: in_bounds_def)
  with loop show ?thesis by blast
qed

lemma hasChangedNeighbor_wf:
  assumes "wf_grid g" "in_bounds g x y"
  shows "hasChangedNeighbor ch x y \<longleftrightarrow>
           (\<exists>(a, b) \<in> set (moore x y). lookup_bool ch (getCacheKey a b))"
proof -
  from assms have r: "0 \<le> x" "x < 2 ^ 63 - 1" "0 \<le> y" "y < 2 ^ 63 - 1"
    by (simp_all add: wf_grid_def in_bounds_def)
  have "is_i64 (x + d)" "is_i64 (y + d)" if "d = - 1 \<or> d = 0 \<or> d = 1" for d
    using r that by (auto simp add: is_i64_def)
  then have "i64 (x + d) = x + d" "i64 (y + d) = y + d" if "d = - 1 \<or> d = 0 \<or> d = 1" for d
    using that by (simp_all add: i64_id)
  from this [of "- 1"] this [of 0] this [of 1] show ?thesis
    by (auto simp add: hasChangedNeighbor_def moore_def)
qed

lemma carry_cell_wf:
  assumes g: "deref hp p = Some g1" and n: "deref hp q = Some n" and pq: "p \<noteq> q"
    and wf0: "wf_grid g0" and ib: "in_bounds g0 x y"
    and sb: "same_board g0 g1" and ok1: "cache_ok g0 \<longrightarrow> cache_ok g1"
    and dims: "width n1 = width g0" "height n1 = height g0"
    and track: "\<forall>a b. in_bounds g0 a b \<longrightarrow>
                  cells n1 ! nat b ! nat a \<noteq> cells g0 ! nat b ! nat a \<longrightarrow>
                  ch (getCacheKey a b) = Some True"
    and inv: "pass2 g0 n1 n"
  shows "\<exists>n'. carry_cell p q ch y x hp = Some (hp[q := n']) \<and> pass2 g0 n1 n'"
proof (cases "\<not> hasChangedNeighbor ch x y \<and> lookup_bool (cacheValid g1) (getCacheKey x y)")
  case False
  then have "carry_cell p q ch y x hp = Some hp"
    using g by (auto simp add: carry_cell_def)
  with inv deref_update_id [OF n] show ?thesis by metis
next
  case True
  let ?key = "getCacheKey x y"
  let ?n' = "n\<lparr>neighborCache := (neighborCache n)(?key \<mapsto> lookup_int (neighborCache g1) ?key),
               cacheValid := (cacheValid n)(?key \<mapsto> True)\<rparr>"
  have q: "q < length hp" using n by (rule deref_length)
  have step: "carry_cell p q ch y x hp = Some (hp[q := ?n'])"
    using True g n q by (simp add: carry_cell_def deref_def)
  from inv have sbn: "same_board n1 n" and okn: "cache_ok g0 \<Longrightarrow> cache_ok n"
    by (simp_all add: pass2_def)
  have sbn': "same_board n1 ?n'" using sbn by (simp add: same_board_def)
  have sbnn: "same_board n ?n'" by (simp add: same_board_def)
  have ibn1: "in_bounds n1 = in_bounds g0" by (simp add: in_bounds_def fun_eq_iff dims)
  have "cache_ok ?n'" if ok0: "cache_ok g0"
    unfolding cache_ok_def
  proof (intro allI impI)
    fix a b assume ab: "in_bounds ?n' a b"
      and valid: "cacheValid ?n' (getCacheKey a b) = Some True"
    show "lookup_int (neighborCache ?n') (getCacheKey a b) = count_at ?n' a b"
    proof (cases "a = x \<and> b = y")
      case False
      then have "getCacheKey a b \<noteq> ?key" by (simp add: getCacheKey_inj)
      with valid ab okn [OF ok0] same_board_facts [OF sbnn] show ?thesis
        by (simp add: cache_ok_def lookup_int_def)
    next
      case xy: True
      from True have v1: "cacheValid g1 ?key = Some True"
        by (simp add: lookup_bool_def split: option.splits)
      have "lookup_int (neighborCache g1) ?key = count_at g1 x y"
        using ok1 ok0 v1 ib same_board_facts(1) [OF sb] by (simp add: cache_ok_def)
      also have "\<dots> = count_at g0 x y" using same_board_facts(4) [OF sb] by simp
      also have "\<dots> = count_at n1 x y"
      proof (rule count_at_cong [symmetric, OF ibn1])
        fix c d assume cd: "(c, d) \<in> set (moore x y)" "in_bounds g0 c d"
        from True cd(1) have "\<not> lookup_bool ch (getCacheKey c d)"
          unfolding hasChangedNeighbor_wf [OF wf0 ib] by blast
        then have "ch (getCacheKey c d) \<noteq> Some True" by (auto simp add: lookup_bool_def)
        with track cd(2) show "cells n1 ! nat d ! nat c = cells g0 ! nat d ! nat c" by blast
      qed
      also have "\<dots> = count_at ?n' x y" using same_board_facts(4) [OF sbn'] by simp
      finally show ?thesis using xy by (simp add: lookup_int_def)
    qed
  qed
  with sbn' have "pass2 g0 n1 ?n'" by (simp add: pass2_def)
  with step show ?thesis by blast
qed

lemma carry_rows_wf:
  assumes g: "deref hp p = Some g1" and n: "deref hp q = Some n" and pq: "p \<noteq> q"
    and wf0: "wf_grid g0"
    and sb: "same_board g0 g1" and ok1: "cache_ok g0 \<longrightarrow> cache_ok g1"
    and dims: "width n1 = width g0" "height n1 = height g0"
    and track: "\<forall>a b. in_bounds g0 a b \<longrightarrow>
                  cells n1 ! nat b ! nat a \<noteq> cells g0 ! nat b ! nat a \<longrightarrow>
                  ch (getCacheKey a b) = Some True"
    and inv: "pass2 g0 n1 n"
  shows "\<exists>n'. for_loop 0 (height g0) (\<lambda>y. for_loop 0 (width g0) (carry_cell p q ch y)) hp =
             Some (hp[q := n']) \<and> pass2 g0 n1 n'"
proof -
  let ?J = "\<lambda>t. \<exists>n'. t = hp[q := n'] \<and> pass2 g0 n1 n'"
  have q: "q < length hp" using n by (rule deref_length)
  have start: "?J hp" using inv deref_update_id [OF n] by blast
  have cell: "\<exists>t'. carry_cell p q ch y x t = Some t' \<and> ?J t'"
    if "0 \<le> x" "x < width g0" "0 \<le> y" "y < height g0" "?J t" for x y t
  proof -
    from that(5) obtain m where m: "t = hp[q := m]" "pass2 g0 n1 m" by blast
    have "\<exists>n'. carry_cell p q ch y x t = Some (t[q := n']) \<and> pass2 g0 n1 n'"
      by (rule carry_cell_wf [OF _ _ pq wf0 _ sb ok1 dims track m(2)])
        (use g pq q that in \<open>simp_all add: m(1) deref_update_other deref_update_same in_bounds_def\<close>)
    then show ?thesis by (auto simp add: m(1))
  qed
  have row: "\<exists>t'. for_loop 0 (width g0) (carry_cell p q ch y) t = Some t' \<and> ?J t'"
    if y: "0 \<le> y" "y < height g0" and t: "?J t" for y t
  proof (rule for_loop_invariant [where I = "\<lambda>x. ?J"])
    show "?J t" by fact
    show "0 \<le> width g0" using wf_row(2) [OF wf0 y] by linarith
    fix x s assume "0 \<le> x" "x < width g0" "?J s"
    then show "\<exists>t'. carry_cell p q ch y x s = Some t' \<and> ?J t'" using cell y by blast
  qed
  have "\<exists>t'. for_loop 0 (height g0) (\<lambda>y. for_loop 0 (width g0) (carry_cell p q ch y)) hp = Some t' \<and>
          ?J t'"
  proof (rule for_loop_invariant [where I = "\<lambda>y. ?J"])
    show "?J hp" by fact
    show "0 \<le> height g0" using wf_dims [OF wf0] by simp
    fix y s assume "0 \<le> y" "y < height g0" "?J s"
    then show "\<exists>t'. for_loop 0 (width g0) (carry_cell p q ch y) s = Some t' \<and> ?J t'"
      using row by blast
  qed
  then show ?thesis by blast
qed

lemma BoldlyGo_cached_wf:
  assumes g: "deref hp p = Some g" and wf: "wf_grid g"
  shows "\<exists>g1 n. BoldlyGo_cached hp p = Some (hp[p := g1] @ [n], length hp) \<and>
           same_board g g1 \<and> wf_grid n \<and> width n = width g \<and> height n = height g \<and>
           (cache_ok g \<longrightarrow> cache_ok g1 \<and> cache_ok n \<and>
              (\<forall>a b. in_bounds g a b \<longrightarrow>
                 cells n ! nat b ! nat a = new_state (cells g ! nat b ! nat a) (count_at g a b)))"
proof -
  let ?n0 = "\<lparr>width = width g, height = height g,
              cells = replicate (nat (height g)) (replicate (nat (width g)) 0),
              neighborCache = Map.empty, cacheValid = Map.empty\<rparr> :: CachedGrid"
  let ?H = "hp @ [?n0]" and ?q = "length hp"
  note d = wf_dims [OF wf]
  have new: "NewGrid_cached (width g) (height g) = Some ?n0"
    using d by (simp add: NewGrid_cached_def make_cells_eq)
  have wfn0: "wf_grid ?n0"
    using wf_blank(1) [of "height g" "width g" ?n0] d wf by (simp add: wf_grid_def)
  have p: "p < length hp" using g by (rule deref_length)
  then have pH: "p < length ?H" and qH: "?q < length ?H" and pq: "p \<noteq> ?q" by simp_all
  have "hp[p := g] = hp" using deref_update_id [OF g] by simp
  then have H: "?H = ?H[p := g, ?q := ?n0]"
    using p by (simp add: list_update_append)
  have reset: "with_grid ?H ?q (\<lambda>n. Some (n\<lparr>neighborCache := Map.empty, cacheValid := Map.empty\<rparr>)) =
      Some ?H"
    by (simp add: with_grid_def deref_def)
  have p1: "pass1 g (\<lambda>a b. False) g ?n0 Map.empty"
    using wfn0 by (simp add: pass1_def)
  from evolve_rows_cached_wf [OF pH qH pq wf p1]
  obtain g1 n1 ch where
    loop1: "for_loop 0 (height g) (evolve_row_cached p ?q) (?H, Map.empty) =
              Some (?H[p := g1, ?q := n1], ch)"
    and i1: "pass1 g (\<lambda>a b. True) g1 n1 ch"
    unfolding H [symmetric] by blast
  from i1 have sb1: "same_board g g1" and wfn1: "wf_grid n1"
    and dims1: "width n1 = width g" "height n1 = height g"
    and empty1: "cacheValid n1 = Map.empty"
    and track: "\<forall>a b. in_bounds g a b \<longrightarrow>
                  cells n1 ! nat b ! nat a \<noteq> cells g ! nat b ! nat a \<longrightarrow>
                  ch (getCacheKey a b) = Some True"
    and ok1: "cache_ok g \<longrightarrow> cache_ok g1"
    and new1: "cache_ok g \<longrightarrow> (\<forall>a b. in_bounds g a b \<longrightarrow>
                cells n1 ! nat b ! nat a = new_state (cells g ! nat b ! nat a) (count_at g a b))"
    by (simp_all add: pass1_def)
  let ?H1 = "?H[p := g1, ?q := n1]"
  have d1: "deref ?H1 p = Some g1" "deref ?H1 ?q = Some n1"
    using p by (simp_all add: deref_def)
  have p2: "pass2 g n1 n1" using empty1 by (simp add: pass2_def cache_ok_def)
  from carry_rows_wf [OF d1 pq wf sb1 ok1 dims1 track p2]
  obtain n2 where
    loop2: "for_loop 0 (height g) (\<lambda>y. for_loop 0 (width g) (carry_cell p ?q ch y)) ?H1 =
              Some (?H1[?q := n2])"
    and i2: "pass2 g n1 n2" by blast
  from i2 have sb2: "same_board n1 n2" and ok2: "cache_ok g \<longrightarrow> cache_ok n2"
    by (simp_all add: pass2_def)
  have heap: "?H1[?q := n2] = hp[p := g1] @ [n2]"
    using p by (simp add: list_update_append)
  have len: "int (length (cells g)) = height g" using wf by (simp add: wf_grid_def)
  have "BoldlyGo_cached hp p = Some (hp[p := g1] @ [n2], length hp)"
    using g new reset loop1 loop2 heap len
    by (simp add: BoldlyGo_cached_def alloc_def)
  moreover have "wf_grid n2" using wfn1 same_board_facts(2) [OF sb2] by simp
  moreover have "width n2 = width g" "height n2 = height g" "cells n2 = cells n1"
    using sb2 dims1 by (simp_all add: same_board_def)
  ultimately show ?thesis using sb1 ok1 ok2 new1 by auto
qed

section \<open>Cache correctness, frame and output range\<close>

lemma NewGrid_cached_ok:
  assumes "is_i64 w" "is_i64 h" "NewGrid_cached w h = Some g"
  shows "wf_grid g \<and> cache_ok g"
proof -
  from assms(3) obtain cs where cs: "make_cells w h = Some cs"
    by (auto simp add: NewGrid_cached_def split: bind_splits)
  have "\<not> (h < 0 \<or> (0 < h \<and> w < 0))"
  proof
    assume "h < 0 \<or> (0 < h \<and> w < 0)"
    from make_cells_None [OF this] cs show False by simp
  qed
  then have dims: "0 \<le> h" "h = 0 \<or> 0 \<le> w" by linarith+
  with assms(3) have g: "g = \<lparr>width = w, height = h,
      cells = replicate (nat h) (replicate (nat w) 0),
      neighborCache = Map.empty, cacheValid = Map.empty\<rparr>"
    by (simp add: NewGrid_cached_def make_cells_eq)
  have "wf_grid g"
    using wf_blank(1) [of h w g] dims assms(1,2) by (simp add: g is_i64_def)
  moreover have "cache_ok g" by (simp add: g cache_ok_def)
  ultimately show ?thesis ..
qed

lemma reachable_ok: "reachable g \<Longrightarrow> wf_grid g \<and> cache_ok g"
proof (induction rule: reachable.induct)
  case (new w h g)
  then show ?case by (rule NewGrid_cached_ok)
next
  case (set g x y v g')
  with SetCell_cached_ok [of g x y v] show ?case by auto
next
  case (scan g x y g' c)
  with scanForLifeforms_cached_ok [of g x y] same_board_facts(2) [of g g'] show ?case by auto
next
  case (source g hp p hp' q g')
  from BoldlyGo_cached_wf [OF source.hyps(2)] source.IH source.hyps(3)
  obtain g1 n where "hp' = hp[p := g1] @ [n]" "same_board g g1" "cache_ok g1" by auto
  moreover have "p < length hp" using source.hyps(2) by (rule deref_length)
  ultimately show ?case
    using source.hyps(4) source.IH same_board_facts(2) [of g g1]
    by (auto simp add: deref_def nth_append)
next
  case (nextGen g hp p hp' q n)
  from BoldlyGo_cached_wf [OF nextGen.hyps(2)] nextGen.IH nextGen.hyps(3)
  obtain g1 m where "hp' = hp[p := g1] @ [m]" "q = length hp" "wf_grid m" "cache_ok m" by auto
  moreover have "(hp[p := g1] @ [m]) ! length hp = m"
    using nth_append_length [of "hp[p := g1]" m "[]"] by simp
  ultimately show ?case using nextGen.hyps(4) by (auto simp add: deref_def)
qed

lemma reachable_dims:
  assumes "reachable g" "width g = w" "height g = h"
  shows "wf_grid g" "in_bounds g x y \<longleftrightarrow> 0 \<le> x \<and> x < w \<and> 0 \<le> y \<and> y < h"
  using reachable_ok [OF assms(1)] assms(2,3) by (simp_all add: in_bounds_def)

lemma set_blinker_reachable:
  assumes "set_blinker = Some g"
  shows "reachable g"
proof -
  from assms obtain g0 g1 g2 where s: "NewGrid_cached 3 3 = Some g0"
    "SetCell_cached g0 0 1 1 = Some g1" "SetCell_cached g1 1 1 1 = Some g2"
    "SetCell_cached g2 2 1 1 = Some g"
    by (auto simp add: set_blinker_def bind_eq_Some_conv)
  have "reachable g0" by (rule reachable.new [OF _ _ s(1)]) (simp_all add: is_i64_def)
  then have "reachable g1" by (rule reachable.set [OF _ s(2)])
  then have "reachable g2" by (rule reachable.set [OF _ s(3)])
  then show ?thesis by (rule reachable.set [OF _ s(4)])
qed

lemma set_block_reachable:
  assumes "set_block = Some g"
  shows "reachable g"
proof -
  from assms obtain g0 g1 g2 g3 where s: "NewGrid_cached 3 3 = Some g0"
    "SetCell_cached g0 0 0 1 = Some g1" "SetCell_cached g1 1 0 1 = Some g2"
    "SetCell_cached g2 0 1 1 = Some g3" "SetCell_cached g3 1 1 1 = Some g"
    by (auto simp add: set_block_def bind_eq_Some_conv)
  have "reachable g0" by (rule reachable.new [OF _ _ s(1)]) (simp_all add: is_i64_def)
  then have "reachable g1" by (rule reachable.set [OF _ s(2)])
  then have "reachable g2" by (rule reachable.set [OF _ s(3)])
  then have "reachable g3" by (rule reachable.set [OF _ s(4)])
  then show ?thesis by (rule reachable.set [OF _ s(5)])
qed

text \<open>
  C2. In the cached engine, for every grid reachable by \<open>NewGrid\<close> followed by any sequence
  of \<open>SetCell\<close> and \<open>BoldlyGo\<close> calls, and every in-bounds coordinate, the cached
  \<open>scanForLifeforms\<close> returns the count that the uncached scan of the byte-array engine
  computes from the same cells. The reachable grids include the next generations, with the
  cache entries carried forward into them.
\<close>

theorem cached_scan_correct:
  assumes "reachable g" and "in_bounds g x y"
  shows "\<exists>g' c. scanForLifeforms_cached g x y = Some (g', c) \<and> scanForLifeforms g x y = Some c \<and>
           (cacheValid g (getCacheKey x y) = Some True \<longrightarrow>
              g' = g \<and> c = lookup_int (neighborCache g) (getCacheKey x y))"
proof -
  from reachable_ok [OF assms(1)] have wf: "wf_grid g" and ok: "cache_ok g" by simp_all
  from scanForLifeforms_cached_ok [OF wf assms(2)] ok
  obtain g' c where "scanForLifeforms_cached g x y = Some (g', c)" "c = count_at g x y" by auto
  with scanForLifeforms_wf [OF wf assms(2)] scanForLifeforms_cached_wf [OF wf assms(2)]
  show ?thesis by auto
qed

theorem cached_scan_correct_witness:
  "\<exists>g g1 g2 g3 b hp q n.
     set_blinker = Some g \<and> cells g = [[0, 0, 0], [1, 1, 1], [0, 0, 0]] \<and>
     reachable g \<and> in_bounds g 1 0 \<and>
     scanForLifeforms_cached g 1 0 = Some (g1, 3) \<and> scanForLifeforms g 1 0 = Some 3 \<and>
     reachable g1 \<and> in_bounds g1 1 0 \<and> cacheValid g1 (getCacheKey 1 0) = Some True \<and>
     scanForLifeforms_cached g1 1 0 = Some (g1, 3) \<and> scanForLifeforms g1 1 0 = Some 3 \<and>
     SetCell_cached g1 1 1 0 = Some g2 \<and> cells g2 = [[0, 0, 0], [1, 0, 1], [0, 0, 0]] \<and>
     reachable g2 \<and> in_bounds g2 1 0 \<and>
     cacheValid g2 (getCacheKey 1 0) = Some False \<and> neighborCache g2 (getCacheKey 1 0) = Some 3 \<and>
     scanForLifeforms_cached g2 1 0 = Some (g3, 2) \<and> scanForLifeforms g2 1 0 = Some 2 \<and>
     set_block = Some b \<and> BoldlyGo_cached [b] 0 = Some (hp, q) \<and> deref hp q = Some n \<and>
     cells n = [[1, 1, 0], [1, 1, 0], [0, 0, 0]] \<and> reachable n \<and> in_bounds n 1 1 \<and>
     cacheValid n (getCacheKey 1 1) = Some True \<and>
     scanForLifeforms_cached n 1 1 = Some (n, 3) \<and> scanForLifeforms n 1 1 = Some 3"
proof -
  \<comment> \<open>the blinker, scanned at \<open>(1, 0)\<close>: a miss\<close>
  have "set_blinker \<bind> (\<lambda>g. Some (width g, height g, cells g)) =
      Some (3, 3, [[0, 0, 0], [1, 1, 1], [0, 0, 0]])"
    by code_simp
  then obtain g where g: "set_blinker = Some g" "width g = 3" "height g = 3"
    "cells g = [[0, 0, 0], [1, 1, 1], [0, 0, 0]]"
    by (auto simp add: bind_eq_Some_conv)
  have rg: "reachable g" by (rule set_blinker_reachable [OF g(1)])
  have ibg: "in_bounds g 1 0" by (simp add: reachable_dims(2) [OF rg g(2,3)])
  from cached_scan_correct [OF rg ibg] obtain g1 c
    where s1: "scanForLifeforms_cached g 1 0 = Some (g1, c)" "scanForLifeforms g 1 0 = Some c"
    by blast
  have "set_blinker \<bind> (\<lambda>g. scanForLifeforms_cached g 1 0) \<bind>
      (\<lambda>(g, c). Some (c, width g, height g, cacheValid g (getCacheKey 1 0),
         neighborCache g (getCacheKey 1 0))) = Some (3, 3, 3, Some True, Some 3)"
    by code_simp
  then have c: "c = 3" and g1: "width g1 = 3" "height g1 = 3"
    "cacheValid g1 (getCacheKey 1 0) = Some True" "neighborCache g1 (getCacheKey 1 0) = Some 3"
    by (simp_all add: g(1) s1(1))
  \<comment> \<open>scanned again: a hit\<close>
  have rg1: "reachable g1" by (rule reachable.scan [OF rg ibg s1(1)])
  have ibg1: "in_bounds g1 1 0" by (simp add: reachable_dims(2) [OF rg1 g1(1,2)])
  from cached_scan_correct [OF rg1 ibg1] g1(3,4)
  have s2: "scanForLifeforms_cached g1 1 0 = Some (g1, 3)" "scanForLifeforms g1 1 0 = Some 3"
    by (auto simp add: lookup_int_def)
  \<comment> \<open>the centre cell dies: the entry is invalid, the stale 3 stays, the next scan gives 2\<close>
  have "set_blinker \<bind> (\<lambda>g. scanForLifeforms_cached g 1 0) \<bind>
      (\<lambda>(g, c). SetCell_cached g 1 1 0) \<bind>
      (\<lambda>g. Some (width g, height g, cells g, cacheValid g (getCacheKey 1 0),
         neighborCache g (getCacheKey 1 0))) =
      Some (3, 3, [[0, 0, 0], [1, 0, 1], [0, 0, 0]], Some False, Some 3)"
    by code_simp
  then obtain g2 where g2: "SetCell_cached g1 1 1 0 = Some g2"
    "width g2 = 3" "height g2 = 3" "cells g2 = [[0, 0, 0], [1, 0, 1], [0, 0, 0]]"
    "cacheValid g2 (getCacheKey 1 0) = Some False" "neighborCache g2 (getCacheKey 1 0) = Some 3"
    by (auto simp add: g(1) s1(1) bind_eq_Some_conv)
  have rg2: "reachable g2" by (rule reachable.set [OF rg1 g2(1)])
  have ibg2: "in_bounds g2 1 0" by (simp add: reachable_dims(2) [OF rg2 g2(2,3)])
  from cached_scan_correct [OF rg2 ibg2] obtain g3 c'
    where s3: "scanForLifeforms_cached g2 1 0 = Some (g3, c')" "scanForLifeforms g2 1 0 = Some c'"
    by blast
  have "set_blinker \<bind> (\<lambda>g. scanForLifeforms_cached g 1 0) \<bind>
      (\<lambda>(g, c). SetCell_cached g 1 1 0) \<bind> (\<lambda>g. scanForLifeforms_cached g 1 0) \<bind>
      (\<lambda>(g, c). Some c) = Some 2"
    by code_simp
  then have c': "c' = 2" by (simp add: g(1) s1(1) g2(1) s3(1))
  \<comment> \<open>the block is a still life: its entries are carried into the next generation\<close>
  have "set_block \<bind> (\<lambda>g. BoldlyGo_cached [g] 0) \<bind> (\<lambda>(hp, q). deref hp q) \<bind>
      (\<lambda>n. Some (width n, height n, cells n, cacheValid n (getCacheKey 1 1),
         neighborCache n (getCacheKey 1 1))) =
      Some (3, 3, [[1, 1, 0], [1, 1, 0], [0, 0, 0]], Some True, Some 3)"
    by code_simp
  then obtain b hp q n where b: "set_block = Some b" "BoldlyGo_cached [b] 0 = Some (hp, q)"
    "deref hp q = Some n" "width n = 3" "height n = 3"
    "cells n = [[1, 1, 0], [1, 1, 0], [0, 0, 0]]"
    "cacheValid n (getCacheKey 1 1) = Some True" "neighborCache n (getCacheKey 1 1) = Some 3"
    by (auto simp add: bind_eq_Some_conv)
  have rb: "reachable b" by (rule set_block_reachable [OF b(1)])
  have db: "deref [b] 0 = Some b" by (simp add: deref_def)
  have rn: "reachable n" by (rule reachable.nextGen [OF rb db b(2,3)])
  have ibn: "in_bounds n 1 1" by (simp add: reachable_dims(2) [OF rn b(4,5)])
  from cached_scan_correct [OF rn ibn] b(7,8)
  have s4: "scanForLifeforms_cached n 1 1 = Some (n, 3)" "scanForLifeforms n 1 1 = Some 3"
    by (auto simp add: lookup_int_def)
  from g rg ibg s1 c rg1 ibg1 g1 s2 g2 rg2 ibg2 s3 c' b rn ibn s4
  show ?thesis by blast
qed

text \<open>
  C4. \<open>BoldlyGo\<close> allocates the grid it returns and writes the next generation there: after
  the call the source pointer still holds a grid with the width, height and cells it had
  before, the returned pointer is a new one, and every other grid on the heap is as it was.
  In the bit-packed engine the source grid is unchanged altogether; in the cached engine only
  its cache maps are filled.
\<close>

theorem BoldlyGo_frame:
  "(deref hb p = Some b \<and> wf_bits b \<longrightarrow>
      (\<exists>hb' q. BoldlyGo_bits hb p = Some (hb', q) \<and> q \<noteq> p \<and> deref hb q = None \<and>
         deref hb' p = Some b \<and> (\<forall>s. s < length hb \<longrightarrow> deref hb' s = deref hb s))) \<and>
   (deref hc r = Some g \<and> wf_grid g \<longrightarrow>
      (\<exists>hc' q g'. BoldlyGo_cached hc r = Some (hc', q) \<and> q \<noteq> r \<and> deref hc q = None \<and>
         deref hc' r = Some g' \<and>
         width g' = width g \<and> height g' = height g \<and> cells g' = cells g \<and>
         (\<forall>s. s < length hc \<and> s \<noteq> r \<longrightarrow> deref hc' s = deref hc s)))"
proof (intro conjI impI)
  assume "deref hb p = Some b \<and> wf_bits b"
  then have b: "deref hb p = Some b" "wf_bits b" by simp_all
  from BoldlyGo_bits_wf [OF b] obtain n
    where n: "BoldlyGo_bits hb p = Some (hb @ [n], length hb)" by blast
  have p: "p < length hb" using b(1) by (rule deref_length)
  have "deref (hb @ [n]) s = deref hb s" if "s < length hb" for s
    using that by (simp add: deref_def nth_append)
  with n p b(1) show "\<exists>hb' q. BoldlyGo_bits hb p = Some (hb', q) \<and> q \<noteq> p \<and> deref hb q = None \<and>
      deref hb' p = Some b \<and> (\<forall>s. s < length hb \<longrightarrow> deref hb' s = deref hb s)"
    by (auto simp add: deref_def)
next
  assume "deref hc r = Some g \<and> wf_grid g"
  then have g: "deref hc r = Some g" "wf_grid g" by simp_all
  from BoldlyGo_cached_wf [OF g] obtain g1 n
    where n: "BoldlyGo_cached hc r = Some (hc[r := g1] @ [n], length hc)"
      and sb: "same_board g g1" by blast
  have r: "r < length hc" using g(1) by (rule deref_length)
  have "deref (hc[r := g1] @ [n]) s = deref hc s" if "s < length hc" "s \<noteq> r" for s
    using that by (simp add: deref_def nth_append)
  moreover have "deref (hc[r := g1] @ [n]) r = Some g1"
    using r by (simp add: deref_def nth_append)
  ultimately show "\<exists>hc' q g'. BoldlyGo_cached hc r = Some (hc', q) \<and> q \<noteq> r \<and> deref hc q = None \<and>
      deref hc' r = Some g' \<and>
      width g' = width g \<and> height g' = height g \<and> cells g' = cells g \<and>
      (\<forall>s. s < length hc \<and> s \<noteq> r \<longrightarrow> deref hc' s = deref hc s)"
    using n r sb by (auto simp add: deref_def same_board_def)
qed

theorem BoldlyGo_frame_witness:
  "deref [example_bits] 0 = Some example_bits \<and> wf_bits example_bits \<and>
   (\<exists>hb' q. BoldlyGo_bits [example_bits] 0 = Some (hb', q) \<and> q \<noteq> 0 \<and>
      deref [example_bits] q = None \<and> deref hb' 0 = Some example_bits \<and>
      (\<forall>s. s < length [example_bits] \<longrightarrow> deref hb' s = deref [example_bits] s)) \<and>
   deref [example_cached] 0 = Some example_cached \<and> wf_grid example_cached \<and>
   (\<exists>hc' q g'. BoldlyGo_cached [example_cached] 0 = Some (hc', q) \<and> q \<noteq> 0 \<and>
      deref [example_cached] q = None \<and> deref hc' 0 = Some g' \<and>
      width g' = width example_cached \<and> height g' = height example_cached \<and>
      cells g' = cells example_cached \<and>
      (\<forall>s. s < length [example_cached] \<and> s \<noteq> 0 \<longrightarrow> deref hc' s = deref [example_cached] s))"
proof -
  have a: "deref [example_bits] 0 = Some example_bits \<and> wf_bits example_bits"
    by (simp add: deref_def wf_bits_def example_bits_def)
  have b: "deref [example_cached] 0 = Some example_cached \<and> wf_grid example_cached"
    by (simp add: deref_def wf_grid_def example_cached_def)
  from BoldlyGo_frame [of "[example_bits]" 0 example_bits "[example_cached]" 0 example_cached] a b
  show ?thesis by simp
qed

lemma BoldlyGo_cells_binary:
  assumes "deref hp p = Some g" and "wf_grid g"
  shows "\<exists>n. BoldlyGo hp p = Some (hp @ [n], length hp) \<and>
           width n = width g \<and> height n = height g \<and>
           (\<forall>a b. in_bounds n a b \<longrightarrow> GetCell n a b = Some 0 \<or> GetCell n a b = Some 1)"
proof -
  from BoldlyGo_wf [OF assms] obtain n
    where n: "BoldlyGo hp p = Some (hp @ [n], length hp)" "evolved g n (\<lambda>a b. True)" by blast
  from n(2) have "wf_grid n" "width n = width g" "height n = height g"
    and "\<And>a b. in_bounds g a b \<Longrightarrow> cells n ! nat b ! nat a = 0 \<or> cells n ! nat b ! nat a = 1"
    by (simp_all add: evolved_def)
  with n(1) show ?thesis by (auto simp add: GetCell_wf in_bounds_def)
qed

text \<open>
  C10, at the input where the cached engine departs from it: a 1\<times>1 cached grid whose cell
  was set to 2. The cell has no neighbours, so no rule of the cached \<open>BoldlyGo\<close> assigns a
  new state, and the next generation keeps the 2.
\<close>

theorem BoldlyGo_cached_keeps_junk:
  "SetCell_cached \<lparr>width = 1, height = 1, cells = [[0]], neighborCache = Map.empty,
                   cacheValid = Map.empty\<rparr> 0 0 2 \<bind> (\<lambda>g. BoldlyGo_cached [g] 0)
     \<bind> (\<lambda>(hp, q). deref hp q) \<bind> (\<lambda>n. Some (width n, height n, cells n)) =
   Some (1, 1, [[2]])"
  by code_simp

section \<open>The blinker\<close>

lemma blinker_horizontal:
  "lives (y = cy \<and> cx - 1 \<le> x \<and> x \<le> cx + 1)
     (\<Sum>(a, b)\<leftarrow>moore x y. if b = cy \<and> cx - 1 \<le> a \<and> a \<le> cx + 1 then 1 else 0) \<longleftrightarrow>
   x = cx \<and> cy - 1 \<le> y \<and> y \<le> cy + 1"
proof -
  consider "y < cy - 1" | "y = cy - 1" | "y = cy" | "y = cy + 1" | "cy + 1 < y" by linarith
  then show ?thesis
  proof cases
    case 1 then show ?thesis by (simp add: lives_def moore_def)
  next
    case 5 then show ?thesis by (simp add: lives_def moore_def)
  next
    case 2
    consider "x < cx - 2" | "x = cx - 2" | "x = cx - 1" | "x = cx" | "x = cx + 1" | "x = cx + 2"
      | "cx + 2 < x" by linarith
    then show ?thesis using 2 by cases (simp_all add: lives_def moore_def)
  next
    case 3
    consider "x < cx - 2" | "x = cx - 2" | "x = cx - 1" | "x = cx" | "x = cx + 1" | "x = cx + 2"
      | "cx + 2 < x" by linarith
    then show ?thesis using 3 by cases (simp_all add: lives_def moore_def)
  next
    case 4
    consider "x < cx - 2" | "x = cx - 2" | "x = cx - 1" | "x = cx" | "x = cx + 1" | "x = cx + 2"
      | "cx + 2 < x" by linarith
    then show ?thesis using 4 by cases (simp_all add: lives_def moore_def)
  qed
qed

lemma blinker_vertical:
  "lives (x = cx \<and> cy - 1 \<le> y \<and> y \<le> cy + 1)
     (\<Sum>(a, b)\<leftarrow>moore x y. if a = cx \<and> cy - 1 \<le> b \<and> b \<le> cy + 1 then 1 else 0) \<longleftrightarrow>
   y = cy \<and> cx - 1 \<le> x \<and> x \<le> cx + 1"
proof -
  consider "x < cx - 1" | "x = cx - 1" | "x = cx" | "x = cx + 1" | "cx + 1 < x" by linarith
  then show ?thesis
  proof cases
    case 1 then show ?thesis by (simp add: lives_def moore_def)
  next
    case 5 then show ?thesis by (simp add: lives_def moore_def)
  next
    case 2
    consider "y < cy - 2" | "y = cy - 2" | "y = cy - 1" | "y = cy" | "y = cy + 1" | "y = cy + 2"
      | "cy + 2 < y" by linarith
    then show ?thesis using 2 by cases (simp_all add: lives_def moore_def)
  next
    case 3
    consider "y < cy - 2" | "y = cy - 2" | "y = cy - 1" | "y = cy" | "y = cy + 1" | "y = cy + 2"
      | "cy + 2 < y" by linarith
    then show ?thesis using 3 by cases (simp_all add: lives_def moore_def)
  next
    case 4
    consider "y < cy - 2" | "y = cy - 2" | "y = cy - 1" | "y = cy" | "y = cy + 1" | "y = cy + 2"
      | "cy + 2 < y" by linarith
    then show ?thesis using 4 by cases (simp_all add: lives_def moore_def)
  qed
qed

lemma deref_alloc: "deref (hp @ [n]) (length hp) = Some n"
  by (simp add: deref_def)

lemma BoldlyGo_bits_pattern:
  assumes g: "deref hp p = Some g" and wf: "wf_bits g"
    and pat: "\<And>a b. in_bounds_bits g a b \<Longrightarrow> GetCell_bits g a b = Some (if P a b then 1 else 0)"
    and inside: "\<And>a b. P a b \<Longrightarrow> in_bounds_bits g a b"
  shows "\<exists>n. BoldlyGo_bits hp p = Some (hp @ [n], length hp) \<and> wf_bits n \<and>
           width_bits n = width_bits g \<and> height_bits n = height_bits g \<and>
           (\<forall>a b. in_bounds_bits n a b \<longrightarrow>
              GetCell_bits n a b =
                Some (if lives (P a b) (\<Sum>(c, d)\<leftarrow>moore a b. if P c d then 1 else 0) then 1 else 0))"
proof -
  from BoldlyGo_bits_wf [OF g wf] obtain n
    where n: "BoldlyGo_bits hp p = Some (hp @ [n], length hp)" "evolved_bits g n (\<lambda>a b. True)"
    by blast
  from n(2) have wfn: "wf_bits n"
    and dims: "width_bits n = width_bits g" "height_bits n = height_bits g"
    and al: "\<And>a b. in_bounds_bits g a b \<Longrightarrow>
               alive_bits n a b = lives (alive_bits g a b) (count_bits g a b)"
    by (simp_all add: evolved_bits_def)
  have alive: "alive_bits g a b = P a b" if "in_bounds_bits g a b" for a b
    using pat [OF that] GetCell_bits_wf [OF wf that] by (simp split: if_splits)
  have "value_bits g a b = (if P a b then 1 else 0)" for a b
    using alive [of a b] inside [of a b] by (auto simp add: value_bits_def)
  then have cnt: "count_bits g a b = (\<Sum>(c, d)\<leftarrow>moore a b. if P c d then 1 else 0)" for a b
    by (simp add: count_bits_def)
  have "GetCell_bits n a b =
      Some (if lives (P a b) (\<Sum>(c, d)\<leftarrow>moore a b. if P c d then 1 else 0) then 1 else 0)"
    if "in_bounds_bits n a b" for a b
  proof -
    from that dims have ab: "in_bounds_bits g a b" by (simp add: in_bounds_bits_def)
    show ?thesis
      using GetCell_bits_wf [OF wfn that] al [OF ab] alive [OF ab] cnt [of a b] by simp
  qed
  with n(1) wfn dims show ?thesis by blast
qed

text \<open>
  C6. On a well-formed bit-packed board that is empty except for three live cells in a
  horizontal row whose centre \<open>(cx, cy)\<close> is not on the border (this covers every such
  blinker on a board of at least 5\<times>5), one \<open>BoldlyGo\<close> returns the board with exactly the
  vertical three-cell column through the centre alive, and a second \<open>BoldlyGo\<close> returns the
  original horizontal pattern.
\<close>

theorem blinker_period_two:
  assumes "deref hp p = Some g" and "wf_bits g"
    and "1 \<le> cx" and "cx + 1 < width_bits g" and "1 \<le> cy" and "cy + 1 < height_bits g"
    and "\<forall>x y. in_bounds_bits g x y \<longrightarrow>
           GetCell_bits g x y = Some (if y = cy \<and> \<bar>x - cx\<bar> \<le> 1 then 1 else 0)"
  shows "\<exists>hp1 q g1 hp2 r g2.
           BoldlyGo_bits hp p = Some (hp1, q) \<and> deref hp1 q = Some g1 \<and>
           (\<forall>x y. in_bounds_bits g x y \<longrightarrow>
              GetCell_bits g1 x y = Some (if x = cx \<and> \<bar>y - cy\<bar> \<le> 1 then 1 else 0)) \<and>
           BoldlyGo_bits hp1 q = Some (hp2, r) \<and> deref hp2 r = Some g2 \<and>
           (\<forall>x y. in_bounds_bits g x y \<longrightarrow> GetCell_bits g2 x y = GetCell_bits g x y)"
proof -
  let ?H = "\<lambda>a b. b = cy \<and> cx - 1 \<le> a \<and> a \<le> cx + 1"
  let ?V = "\<lambda>a b. a = cx \<and> cy - 1 \<le> b \<and> b \<le> cy + 1"
  have abs: "\<bar>a - c\<bar> \<le> 1 \<longleftrightarrow> c - 1 \<le> a \<and> a \<le> c + 1" for a c :: int by linarith
  have patH: "GetCell_bits g a b = Some (if ?H a b then 1 else 0)" if "in_bounds_bits g a b" for a b
    using assms(7) that by (simp add: abs)
  have inH: "in_bounds_bits g a b" if "?H a b" for a b
    using that assms(3-6) by (simp add: in_bounds_bits_def)
  from BoldlyGo_bits_pattern [of hp p g ?H, OF assms(1,2) patH inH]
  obtain g1 where g1: "BoldlyGo_bits hp p = Some (hp @ [g1], length hp)" "wf_bits g1"
      "width_bits g1 = width_bits g" "height_bits g1 = height_bits g"
      "\<And>a b. in_bounds_bits g1 a b \<Longrightarrow> GetCell_bits g1 a b = Some (if ?V a b then 1 else 0)"
    unfolding blinker_horizontal by blast
  have ib1: "in_bounds_bits g1 = in_bounds_bits g"
    by (simp add: in_bounds_bits_def fun_eq_iff g1(3,4))
  let ?hp1 = "hp @ [g1]" and ?q = "length hp"
  have d1: "deref ?hp1 ?q = Some g1" by (simp add: deref_def)
  have inV: "in_bounds_bits g1 a b" if "?V a b" for a b
    using that assms(3-6) by (simp add: in_bounds_bits_def g1(3,4))
  from BoldlyGo_bits_pattern [of ?hp1 ?q g1 ?V, OF d1 g1(2) g1(5) inV]
  obtain g2 where g2: "BoldlyGo_bits ?hp1 ?q = Some (?hp1 @ [g2], length ?hp1)"
      "\<And>a b. in_bounds_bits g1 a b \<Longrightarrow> GetCell_bits g2 a b = Some (if ?H a b then 1 else 0)"
    unfolding blinker_vertical g1(3,4) ib1 by (auto simp add: in_bounds_bits_def)
  have d2: "deref (?hp1 @ [g2]) (length ?hp1) = Some g2" by (rule deref_alloc)
  have "GetCell_bits g1 x y = Some (if x = cx \<and> \<bar>y - cy\<bar> \<le> 1 then 1 else 0)"
    if "in_bounds_bits g x y" for x y
    using g1(5) [of x y] that ib1 by (simp add: abs)
  moreover have "GetCell_bits g2 x y = GetCell_bits g x y" if "in_bounds_bits g x y" for x y
    using g2(2) [of x y] patH [OF that] that ib1 by simp
  ultimately show ?thesis using g1(1) d1 g2(1) d2 by blast
qed

lemma blinker5_cells:
  assumes "in_bounds_bits blinker5 x y"
  shows "GetCell_bits blinker5 x y = Some (if y = 2 \<and> \<bar>x - 2\<bar> \<le> 1 then 1 else 0)"
proof -
  have wf: "wf_bits blinker5" by (simp add: wf_bits_def blinker5_def)
  from assms have "x = 0 \<or> x = 1 \<or> x = 2 \<or> x = 3 \<or> x = 4" "y = 0 \<or> y = 1 \<or> y = 2 \<or> y = 3 \<or> y = 4"
    by (auto simp add: in_bounds_bits_def blinker5_def)
  then have "alive_bits blinker5 x y \<longleftrightarrow> y = 2 \<and> \<bar>x - 2\<bar> \<le> 1"
    by (elim disjE) (simp_all add: alive_bits_def blinker5_def)
  with GetCell_bits_wf [OF wf assms] show ?thesis by simp
qed

theorem blinker_period_two_witness:
  "deref [blinker5] 0 = Some blinker5 \<and> wf_bits blinker5 \<and>
   (1::int) \<le> 2 \<and> 2 + 1 < width_bits blinker5 \<and> (1::int) \<le> 2 \<and> 2 + 1 < height_bits blinker5 \<and>
   map (\<lambda>y. map (\<lambda>x. GetCell_bits blinker5 x y) [0, 1, 2, 3, 4]) [0, 1, 2, 3, 4] =
     map (map Some)
       [[0, 0, 0, 0, 0], [0, 0, 0, 0, 0], [0, 1, 1, 1, 0], [0, 0, 0, 0, 0], [0, 0, 0, 0, 0]] \<and>
   (\<exists>hp1 q g1 hp2 r g2.
      BoldlyGo_bits [blinker5] 0 = Some (hp1, q) \<and> deref hp1 q = Some g1 \<and>
      (\<forall>x y. in_bounds_bits blinker5 x y \<longrightarrow>
         GetCell_bits g1 x y = Some (if x = 2 \<and> \<bar>y - 2\<bar> \<le> 1 then 1 else 0)) \<and>
      BoldlyGo_bits hp1 q = Some (hp2, r) \<and> deref hp2 r = Some g2 \<and>
      (\<forall>x y. in_bounds_bits blinker5 x y \<longrightarrow> GetCell_bits g2 x y = GetCell_bits blinker5 x y))"
proof -
  have a: "deref [blinker5] 0 = Some blinker5" by (simp add: deref_def)
  have b: "wf_bits blinker5" by (simp add: wf_bits_def blinker5_def)
  have c: "(1::int) \<le> 2" "2 + 1 < width_bits blinker5" "2 + 1 < height_bits blinker5"
    by (simp_all add: blinker5_def)
  have d: "\<forall>x y. in_bounds_bits blinker5 x y \<longrightarrow>
      GetCell_bits blinker5 x y = Some (if y = 2 \<and> \<bar>x - 2\<bar> \<le> 1 then 1 else 0)"
    using blinker5_cells by blast
  have e: "map (\<lambda>y. map (\<lambda>x. GetCell_bits blinker5 x y) [0, 1, 2, 3, 4]) [0, 1, 2, 3, 4] =
      map (map Some)
        [[0, 0, 0, 0, 0], [0, 0, 0, 0, 0], [0, 1, 1, 1, 0], [0, 0, 0, 0, 0], [0, 0, 0, 0, 0]]"
    by code_simp
  from blinker_period_two [OF a b c(1,2) c(1) c(3) d] a b c e show ?thesis by blast
qed

section \<open>Rendering and degenerate boards\<close>

lemma concat_replicate_snoc: "concat (replicate k s) @ s = concat (replicate (Suc k) s)"
  by (induction k) simp_all

lemma for_loop_append:
  assumes "\<And>j t. i \<le> j \<Longrightarrow> j < n \<Longrightarrow> body j t = Some (t @ s)"
  shows "for_loop i n body out = Some (out @ concat (replicate (nat (n - i)) s))"
proof (cases "i \<le> n")
  case False
  then show ?thesis by (simp add: for_loop_done)
next
  case True
  let ?I = "\<lambda>j t. t = out @ concat (replicate (nat (j - i)) s)"
  have "\<exists>t. for_loop i n body out = Some t \<and> ?I n t"
  proof (rule for_loop_invariant [where I = ?I])
    show "?I i out" by simp
    show "i \<le> n" by fact
    fix j t assume j: "i \<le> j" "j < n" and t: "?I j t"
    have "nat (j + 1 - i) = Suc (nat (j - i))" using j by simp
    then have "?I (j + 1) (t @ s)"
      using t by (simp add: concat_replicate_snoc del: replicate_Suc)
    with assms [OF j] show "\<exists>t'. body j t = Some t' \<and> ?I (j + 1) t'" by simp
  qed
  then show ?thesis by simp
qed

lemma for_loop_plain:
  assumes "i \<le> n"
    and "\<And>j t. i \<le> j \<Longrightarrow> j < n \<Longrightarrow> \<exists>s. body j t = Some (t @ s) \<and> plain s"
  shows "\<exists>s. for_loop i n body out = Some (out @ s) \<and> plain s"
proof -
  let ?I = "\<lambda>j t. \<exists>s. t = out @ s \<and> plain s"
  have "\<exists>t. for_loop i n body out = Some t \<and> ?I n t"
  proof (rule for_loop_invariant [where I = ?I])
    show "?I i out" by (simp add: plain_def)
    show "i \<le> n" by fact
    fix j t assume j: "i \<le> j" "j < n" and "?I j t"
    then obtain s where s: "t = out @ s" "plain s" by blast
    from assms(2) [OF j, of t] obtain s' where "body j t = Some (t @ s')" "plain s'" by blast
    with s show "\<exists>t'. body j t = Some t' \<and> ?I (j + 1) t'"
      by (auto simp add: plain_def)
  qed
  then show ?thesis by blast
qed

lemma plain_Nil [simp]: "plain []"
  by (simp add: plain_def)

lemma plain_Cons [simp]: "plain (c # s) \<longleftrightarrow> c \<noteq> CHR 0x1B \<and> plain s"
  by (auto simp add: plain_def)

lemma plain_glyphs [simp]:
  "plain box_tl" "plain box_tr" "plain box_bl" "plain box_br" "plain box_h" "plain box_v"
  "plain block" "plain newline" "plain '' ''"
  by (simp_all add: box_tl_def box_tr_def box_bl_def box_br_def box_h_def box_v_def
      block_def newline_def)

lemma plain_append [simp]: "plain (s @ t) \<longleftrightarrow> plain s \<and> plain t"
  by (auto simp add: plain_def)

lemma plain_concat_replicate [simp]: "plain s \<Longrightarrow> plain (concat (replicate k s))"
  by (induction k) simp_all

lemma print_hline_eq:
  "print_hline w out = Some (out @ concat (replicate (nat (i64 (i64 (w * 2) + 1))) box_h))"
  using for_loop_append [of 0 "i64 (i64 (w * 2) + 1)" "\<lambda>i out. Some (out @ box_h)" box_h out]
  by (simp add: print_hline_def)

lemma print_cell_wf:
  assumes "wf_grid g" "in_bounds g x y"
  shows "\<exists>s. print_cell g y x out = Some (out @ s) \<and> plain s"
  using cell_at_wf [OF assms] by (simp add: print_cell_def)

lemma print_row_wf:
  assumes wf: "wf_grid g" and y: "0 \<le> y" "y < height g"
  shows "\<exists>s. print_row g y out = Some (out @ s) \<and> plain s"
proof -
  have w0: "0 \<le> width g" using wf_row(2) [OF wf y] by linarith
  have "\<exists>s. for_loop 0 (width g) (print_cell g y) (out @ box_v @ '' '') =
              Some ((out @ box_v @ '' '') @ s) \<and> plain s"
  proof (rule for_loop_plain [OF w0])
    fix x t assume "0 \<le> x" "x < width g"
    with y have "in_bounds g x y" by (simp add: in_bounds_def)
    from print_cell_wf [OF wf this] show "\<exists>s. print_cell g y x t = Some (t @ s) \<and> plain s" .
  qed
  then obtain s where "for_loop 0 (width g) (print_cell g y) (out @ box_v @ '' '') =
      Some (out @ box_v @ '' '' @ s)" "plain s" by auto
  then have "print_row g y out = Some (out @ (box_v @ '' '' @ s @ box_v @ newline))"
    "plain (box_v @ '' '' @ s @ box_v @ newline)"
    by (simp_all add: print_row_def)
  then show ?thesis by blast
qed

lemma print_frame_wf:
  assumes wf: "wf_grid g"
  shows "\<exists>s. print_frame g out = Some (out @ s) \<and> plain s"
proof -
  let ?hl = "concat (replicate (nat (i64 (i64 (width g * 2) + 1))) box_h)"
  let ?top = "out @ box_tl @ ?hl @ box_tr @ newline"
  have h0: "0 \<le> height g" using wf_dims [OF wf] by simp
  have "\<exists>s. for_loop 0 (height g) (print_row g) ?top = Some (?top @ s) \<and> plain s"
  proof (rule for_loop_plain [OF h0])
    fix y t assume "0 \<le> y" "y < height g"
    from print_row_wf [OF wf this] show "\<exists>s. print_row g y t = Some (t @ s) \<and> plain s" .
  qed
  then obtain s where s: "for_loop 0 (height g) (print_row g) ?top = Some (?top @ s)" "plain s"
    by blast
  let ?rest = "box_tl @ ?hl @ box_tr @ newline @ s @ box_bl @ ?hl @ box_br @ newline"
  have "print_frame g out = Some (out @ ?rest)"
    using s(1) by (simp add: print_frame_def print_hline_eq)
  moreover have "plain ?rest" using s(2) by simp
  ultimately show ?thesis by blast
qed

lemma no_clear_screen:
  assumes "plain s"
  shows "\<not> sublist clear_screen (cursor_home @ s)"
proof
  assume "sublist clear_screen (cursor_home @ s)"
  then obtain ps ss where eq: "cursor_home @ s = ps @ clear_screen @ ss"
    by (auto simp add: sublist_def)
  show False
  proof (cases ps)
    case Nil
    with eq show False by (simp add: cursor_home_def clear_screen_def)
  next
    case (Cons c ps')
    with eq have "CHR ''['' # CHR ''H'' # s = ps' @ CHR 0x1B # CHR ''['' # CHR ''2'' # CHR ''J'' # ss"
      by (simp add: cursor_home_def clear_screen_def)
    then have "CHR 0x1B \<in> set (CHR ''['' # CHR ''H'' # s)"
      by (metis in_set_conv_decomp)
    with assms show False by (simp add: plain_def)
  qed
qed

text \<open>
  C8, as the code has it. On a well-formed grid the cached engine's \<open>MakeItSo\<close> writes the
  cursor-home sequence first and no clear-screen sequence anywhere in the frame, so frames
  overwrite in place; \<open>Display\<close> of \<open>grid.go\<close> writes the cursor-home sequence followed by
  the clear-screen sequence before the frame.
\<close>

theorem render_escape_sequences:
  "(wf_grid (c :: CachedGrid) \<longrightarrow>
      (\<exists>out. MakeItSo c = Some out \<and> prefix cursor_home out \<and> \<not> sublist clear_screen out)) \<and>
   (wf_grid (g :: Grid) \<longrightarrow>
      (\<exists>out. Display g = Some out \<and> prefix (cursor_home @ clear_screen) out))"
proof (intro conjI impI)
  assume "wf_grid c"
  from print_frame_wf [OF this, of cursor_home]
  obtain s where "MakeItSo c = Some (cursor_home @ s)" "plain s"
    by (auto simp add: MakeItSo_def)
  with no_clear_screen [of s]
  show "\<exists>out. MakeItSo c = Some out \<and> prefix cursor_home out \<and> \<not> sublist clear_screen out"
    by simp
next
  assume "wf_grid g"
  from print_frame_wf [OF this, of "cursor_home @ clear_screen"]
  show "\<exists>out. Display g = Some out \<and> prefix (cursor_home @ clear_screen) out"
    by (auto simp add: Display_def)
qed

theorem render_escape_sequences_witness:
  "wf_grid example_cached \<and>
   (\<exists>out. MakeItSo example_cached = Some out \<and> prefix cursor_home out \<and>
      \<not> sublist clear_screen out) \<and>
   wf_grid example_grid \<and>
   (\<exists>out. Display example_grid = Some out \<and> prefix (cursor_home @ clear_screen) out)"
proof -
  have a: "wf_grid example_cached" by (simp add: wf_grid_def example_cached_def)
  have b: "wf_grid example_grid" by (simp add: wf_grid_def example_grid_def)
  from render_escape_sequences [of example_cached example_grid] a b show ?thesis by simp
qed

text \<open>C8 as stated fails for \<open>Display\<close>: on the example board its output contains the
  clear-screen sequence.\<close>

theorem Display_clears_screen:
  "Display example_grid \<noteq> None \<and> sublist clear_screen (the (Display example_grid))"
proof -
  have "wf_grid example_grid" by (simp add: wf_grid_def example_grid_def)
  from print_frame_wf [OF this, of "cursor_home @ clear_screen"]
  obtain s where "Display example_grid = Some (cursor_home @ clear_screen @ s)"
    by (auto simp add: Display_def)
  then show ?thesis by simp
qed

lemma for_loop_fixed:
  assumes "\<And>j. i \<le> j \<Longrightarrow> j < n \<Longrightarrow> body j s = Some s"
  shows "for_loop i n body s = Some s"
proof (cases "i \<le> n")
  case True
  have "\<exists>t. for_loop i n body s = Some t \<and> t = s"
    by (rule for_loop_invariant [where I = "\<lambda>j t. t = s"]) (use True assms in auto)
  then show ?thesis by simp
next
  case False
  then show ?thesis by (simp add: for_loop_done)
qed

lemma print_frame_empty:
  assumes "width g \<le> 0 \<or> height g \<le> 0"
  shows "print_frame g out = Some (out @ empty_box (width g) (height g))"
proof -
  let ?hl = "concat (replicate (nat (i64 (i64 (width g * 2) + 1))) box_h)"
  let ?row = "box_v @ '' '' @ box_v @ newline"
  have "print_row g y t = Some (t @ ?row)" if "0 \<le> y" "y < height g" for y t
    using that assms by (simp add: print_row_def for_loop_done)
  from for_loop_append [of 0 "height g" "print_row g" ?row, OF this]
  have "for_loop 0 (height g) (print_row g) t = Some (t @ concat (replicate (nat (height g)) ?row))"
    for t by simp
  then show ?thesis
    by (simp add: print_frame_def print_hline_eq empty_box_def Let_def)
qed

lemma MakeItSo_bits_empty:
  assumes "width_bits g \<le> 0 \<or> height_bits g \<le> 0"
  shows "MakeItSo_bits g = Some (cursor_home @ empty_box (width_bits g) (height_bits g))"
proof -
  let ?row = "box_v @ '' '' @ box_v @ newline"
  have "print_row_bits g y t = Some (t @ ?row)" if "0 \<le> y" "y < height_bits g" for y t
    using that assms by (simp add: print_row_bits_def for_loop_done)
  from for_loop_append [of 0 "height_bits g" "print_row_bits g" ?row, OF this]
  have "for_loop 0 (height_bits g) (print_row_bits g) t =
      Some (t @ concat (replicate (nat (height_bits g)) ?row))" for t by simp
  then show ?thesis
    by (simp add: MakeItSo_bits_def print_hline_eq empty_box_def Let_def)
qed

lemma make_cells_zero:
  assumes "w = 0 \<or> h = 0" "make_cells w h = Some cs"
  shows "cs = replicate (nat h) []"
proof -
  have "\<not> (h < 0 \<or> (0 < h \<and> w < 0))"
  proof
    assume "h < 0 \<or> (0 < h \<and> w < 0)"
    from make_cells_None [OF this] assms(2) show False by simp
  qed
  then have "0 \<le> h" "h = 0 \<or> 0 \<le> w" by linarith+
  from make_cells_eq [OF this] assms show ?thesis by auto
qed

lemma NewGrid_bits_zero:
  assumes "w = 0 \<or> h = 0" "NewGrid_bits w h = Some b"
  shows "b = \<lparr>width_bits = w, height_bits = h, cells_bits = []\<rparr>"
proof -
  have "i64 0 = 0" "i64 63 = 63" by (simp_all add: i64_id is_i64_def)
  moreover from this assms(1) have "i64 (w * h) = 0" by auto
  ultimately show ?thesis
    using assms(2) by (simp add: NewGrid_bits_def make_slice_def signed_divide_int_def Let_def)
qed

lemma BoldlyGo_bits_zero:
  assumes z: "w = 0 \<or> h = 0" and new: "NewGrid_bits w h = Some b" and b: "deref hp p = Some b"
  shows "BoldlyGo_bits hp p = Some (hp @ [b], length hp)"
proof -
  note bz = NewGrid_bits_zero [OF z new]
  have dims: "width_bits b = w" "height_bits b = h" by (simp_all add: bz)
  have "for_loop 0 h (\<lambda>y. for_loop 0 w (evolve_cell_bits p (length hp) y)) (hp @ [b]) =
      Some (hp @ [b])"
  proof (rule for_loop_fixed)
    fix y assume "0 \<le> y" "y < h"
    with z have "w = 0" by auto
    then show "for_loop 0 w (evolve_cell_bits p (length hp) y) (hp @ [b]) = Some (hp @ [b])"
      by (simp add: for_loop_done)
  qed
  then show ?thesis using b new by (simp add: BoldlyGo_bits_def dims alloc_def)
qed

lemma BoldlyGo_zero:
  assumes z: "w = 0 \<or> h = 0" and new: "NewGrid w h = Some g" and g: "deref hp p = Some g"
  shows "BoldlyGo hp p = Some (hp @ [g], length hp)"
proof -
  from new obtain cs where cs: "make_cells w h = Some cs" "g = \<lparr>width = w, height = h, cells = cs\<rparr>"
    by (auto simp add: NewGrid_def split: bind_splits)
  note cz = make_cells_zero [OF z cs(1)]
  have p: "p < length hp" using g by (rule deref_length)
  have "for_loop 0 (int (length (cells g))) (evolve_row p (length hp)) (hp @ [g]) = Some (hp @ [g])"
  proof (rule for_loop_fixed)
    fix y assume "0 \<le> y" "y < int (length (cells g))"
    then have "nat y < length (cells g)" by simp
    then have "cells g ! nat y = []" by (simp add: cs(2) cz)
    with \<open>0 \<le> y\<close> \<open>y < int (length (cells g))\<close> have "at (cells g) y = Some []"
      by (simp add: at_def)
    moreover have "deref (hp @ [g]) p = Some g" using g p by (simp add: deref_def nth_append)
    ultimately show "evolve_row p (length hp) y (hp @ [g]) = Some (hp @ [g])"
      by (simp add: evolve_row_def for_loop_done)
  qed
  then show ?thesis using g new by (simp add: BoldlyGo_def cs(2) alloc_def)
qed

lemma BoldlyGo_cached_zero:
  assumes z: "w = 0 \<or> h = 0" and new: "NewGrid_cached w h = Some g" and g: "deref hp p = Some g"
  shows "BoldlyGo_cached hp p = Some (hp @ [g], length hp)"
proof -
  from new obtain cs where cs: "make_cells w h = Some cs"
    "g = \<lparr>width = w, height = h, cells = cs, neighborCache = Map.empty, cacheValid = Map.empty\<rparr>"
    by (auto simp add: NewGrid_cached_def split: bind_splits)
  note cz = make_cells_zero [OF z cs(1)]
  have p: "p < length hp" using g by (rule deref_length)
  have dp: "deref (hp @ [g]) p = Some g" using g p by (simp add: deref_def nth_append)
  have reset: "with_grid (hp @ [g]) (length hp)
      (\<lambda>n. Some (n\<lparr>neighborCache := Map.empty, cacheValid := Map.empty\<rparr>)) = Some (hp @ [g])"
    by (simp add: with_grid_def deref_def cs(2))
  have one: "for_loop 0 (int (length (cells g))) (evolve_row_cached p (length hp))
      (hp @ [g], Map.empty) = Some (hp @ [g], Map.empty)"
  proof (rule for_loop_fixed)
    fix y assume "0 \<le> y" "y < int (length (cells g))"
    then have "nat y < length (cells g)" by simp
    then have "cells g ! nat y = []" by (simp add: cs(2) cz)
    with \<open>0 \<le> y\<close> \<open>y < int (length (cells g))\<close> have "at (cells g) y = Some []"
      by (simp add: at_def)
    with dp show "evolve_row_cached p (length hp) y (hp @ [g], Map.empty) =
        Some (hp @ [g], Map.empty)"
      by (simp add: evolve_row_cached_def for_loop_done)
  qed
  have two: "for_loop 0 h (\<lambda>y. for_loop 0 w (carry_cell p (length hp) Map.empty y)) (hp @ [g]) =
      Some (hp @ [g])"
  proof (rule for_loop_fixed)
    fix y assume "0 \<le> y" "y < h"
    with z have "w = 0" by auto
    then show "for_loop 0 w (carry_cell p (length hp) Map.empty y) (hp @ [g]) = Some (hp @ [g])"
      by (simp add: for_loop_done)
  qed
  have dims: "width g = w" "height g = h" by (simp_all add: cs(2))
  show ?thesis
    using g new reset one two by (simp add: BoldlyGo_cached_def dims alloc_def)
qed

text \<open>
  C7. A grid created with width 0 or height 0 has no in-bounds coordinate. In each engine
  every later call returns without a panic: \<open>GetCell\<close> gives 0 everywhere, \<open>SetCell\<close>
  returns the grid as it was, \<open>BoldlyGo\<close> allocates a grid equal to the source (same
  dimensions, no cell), and the renderer writes its escape prefix and then the empty box: the
  top border, one line of two side borders per row, and the bottom border.
\<close>

theorem zero_dimension_grids:
  "((w = 0 \<or> h = 0) \<and> NewGrid w h = Some g \<and> deref hg pg = Some g \<longrightarrow>
      GetCell g x y = Some 0 \<and> SetCell_bool g x y alive = Some g \<and> SetCell g x y v = Some g \<and>
      BoldlyGo hg pg = Some (hg @ [g], length hg) \<and>
      Display g = Some (cursor_home @ clear_screen @ empty_box w h) \<and>
      MakeItSo g = Some (cursor_home @ empty_box w h)) \<and>
   ((w = 0 \<or> h = 0) \<and> NewGrid_bits w h = Some b \<and> deref hb pb = Some b \<longrightarrow>
      GetCell_bits b x y = Some 0 \<and> SetCell_bits b x y v = Some b \<and>
      BoldlyGo_bits hb pb = Some (hb @ [b], length hb) \<and>
      MakeItSo_bits b = Some (cursor_home @ empty_box w h)) \<and>
   ((w = 0 \<or> h = 0) \<and> NewGrid_cached w h = Some c \<and> deref hc pc = Some c \<longrightarrow>
      GetCell c x y = Some 0 \<and> SetCell_cached c x y v = Some c \<and>
      BoldlyGo_cached hc pc = Some (hc @ [c], length hc) \<and>
      MakeItSo c = Some (cursor_home @ empty_box w h))"
proof (intro conjI impI)
  assume a: "(w = 0 \<or> h = 0) \<and> NewGrid w h = Some g \<and> deref hg pg = Some g"
  then have dims: "width g = w" "height g = h"
    by (auto simp add: NewGrid_def split: bind_splits)
  with a have out: "\<not> in_bounds g x y" by (auto simp add: in_bounds_def)
  from a dims have small: "width g \<le> 0 \<or> height g \<le> 0" by auto
  from out show "GetCell g x y = Some 0" "SetCell_bool g x y alive = Some g"
    "SetCell g x y v = Some g"
    by (simp_all add: GetCell_def SetCell_bool_def SetCell_def)
  from a show "BoldlyGo hg pg = Some (hg @ [g], length hg)" by (intro BoldlyGo_zero) auto
  from print_frame_empty [OF small] dims
  show "Display g = Some (cursor_home @ clear_screen @ empty_box w h)"
    "MakeItSo g = Some (cursor_home @ empty_box w h)"
    by (simp_all add: Display_def MakeItSo_def)
next
  assume a: "(w = 0 \<or> h = 0) \<and> NewGrid_bits w h = Some b \<and> deref hb pb = Some b"
  then have dims: "width_bits b = w" "height_bits b = h"
    using NewGrid_bits_zero [of w h b] by auto
  with a have out: "\<not> in_bounds_bits b x y" by (auto simp add: in_bounds_bits_def)
  from a dims have small: "width_bits b \<le> 0 \<or> height_bits b \<le> 0" by auto
  from out show "GetCell_bits b x y = Some 0" "SetCell_bits b x y v = Some b"
    by (simp_all add: GetCell_bits_def SetCell_bits_def)
  from a show "BoldlyGo_bits hb pb = Some (hb @ [b], length hb)"
    by (intro BoldlyGo_bits_zero) auto
  from MakeItSo_bits_empty [OF small] dims
  show "MakeItSo_bits b = Some (cursor_home @ empty_box w h)" by simp
next
  assume a: "(w = 0 \<or> h = 0) \<and> NewGrid_cached w h = Some c \<and> deref hc pc = Some c"
  then have dims: "width c = w" "height c = h"
    by (auto simp add: NewGrid_cached_def split: bind_splits)
  with a have out: "\<not> in_bounds c x y" by (auto simp add: in_bounds_def)
  from a dims have small: "width c \<le> 0 \<or> height c \<le> 0" by auto
  from out show "GetCell c x y = Some 0" "SetCell_cached c x y v = Some c"
    by (simp_all add: GetCell_def SetCell_cached_def)
  from a show "BoldlyGo_cached hc pc = Some (hc @ [c], length hc)"
    by (intro BoldlyGo_cached_zero) auto
  from print_frame_empty [OF small] dims
  show "MakeItSo c = Some (cursor_home @ empty_box w h)" by (simp add: MakeItSo_def)
qed

theorem zero_dimension_grids_witness:
  "((0::int) = 0 \<or> (2::int) = 0) \<and> NewGrid 0 2 = Some zero_grid \<and>
   deref [zero_grid] 0 = Some zero_grid \<and>
   GetCell zero_grid 0 1 = Some 0 \<and> SetCell_bool zero_grid 0 1 True = Some zero_grid \<and>
   SetCell zero_grid 0 1 1 = Some zero_grid \<and>
   BoldlyGo [zero_grid] 0 = Some ([zero_grid] @ [zero_grid], length [zero_grid]) \<and>
   Display zero_grid = Some (cursor_home @ clear_screen @ empty_box 0 2) \<and>
   MakeItSo zero_grid = Some (cursor_home @ empty_box 0 2) \<and>
   NewGrid_bits 0 2 = Some zero_bits \<and> deref [zero_bits] 0 = Some zero_bits \<and>
   GetCell_bits zero_bits 0 1 = Some 0 \<and> SetCell_bits zero_bits 0 1 1 = Some zero_bits \<and>
   BoldlyGo_bits [zero_bits] 0 = Some ([zero_bits] @ [zero_bits], length [zero_bits]) \<and>
   MakeItSo_bits zero_bits = Some (cursor_home @ empty_box 0 2) \<and>
   NewGrid_cached 0 2 = Some zero_cached \<and> deref [zero_cached] 0 = Some zero_cached \<and>
   GetCell zero_cached 0 1 = Some 0 \<and> SetCell_cached zero_cached 0 1 1 = Some zero_cached \<and>
   BoldlyGo_cached [zero_cached] 0 = Some ([zero_cached] @ [zero_cached], length [zero_cached]) \<and>
   MakeItSo zero_cached = Some (cursor_home @ empty_box 0 2)"
proof -
  have cs: "make_cells 0 2 = Some [[], []]"
    by (simp add: make_cells_eq eval_nat_numeral)
  have a: "NewGrid 0 2 = Some zero_grid" "deref [zero_grid] 0 = Some zero_grid"
    by (simp_all add: NewGrid_def cs zero_grid_def deref_def)
  have b: "NewGrid_bits 0 2 = Some zero_bits" "deref [zero_bits] 0 = Some zero_bits"
    by (simp_all add: NewGrid_bits_def make_slice_def zero_bits_def deref_def i64_id is_i64_def
        signed_divide_int_def)
  have c: "NewGrid_cached 0 2 = Some zero_cached" "deref [zero_cached] 0 = Some zero_cached"
    by (simp_all add: NewGrid_cached_def cs zero_cached_def deref_def)
  from zero_dimension_grids [of 0 2 zero_grid "[zero_grid]" 0 0 1 True 1 zero_bits "[zero_bits]" 0
      zero_cached "[zero_cached]" 0] a b c
  show ?thesis by simp
qed

section \<open>The two representations\<close>

lemma agree_in_bounds: "agree ga gb \<Longrightarrow> in_bounds ga = in_bounds_bits gb"
  by (simp add: agree_def in_bounds_def in_bounds_bits_def fun_eq_iff)

lemma agree_GetCell:
  assumes "agree ga gb"
  shows "GetCell ga x y = GetCell_bits gb x y"
proof (cases "in_bounds ga x y")
  case True
  with assms agree_in_bounds [OF assms] show ?thesis
    by (simp add: agree_def GetCell_wf GetCell_bits_wf)
next
  case False
  with agree_in_bounds [OF assms] show ?thesis
    by (simp add: GetCell_def GetCell_bits_def)
qed

lemma agree_new:
  assumes "0 \<le> w" "w < 2 ^ 63" "0 \<le> h" "h < 2 ^ 63" "w * h + 63 < 2 ^ 63"
  shows "\<exists>ga gb. NewGrid w h = Some ga \<and> NewGrid_bits w h = Some gb \<and> agree ga gb"
proof -
  let ?ga = "\<lparr>width = w, height = h, cells = replicate (nat h) (replicate (nat w) 0)\<rparr>"
  have new: "NewGrid w h = Some ?ga" using assms by (simp add: NewGrid_def make_cells_eq)
  from NewGrid_bits_wf [OF assms] obtain gb where gb: "NewGrid_bits w h = Some gb" "wf_bits gb"
    "width_bits gb = w" "height_bits gb = h" "\<And>a b. in_bounds_bits gb a b \<Longrightarrow> \<not> alive_bits gb a b"
    by blast
  have "wf_grid ?ga" "\<And>a b. in_bounds ?ga a b \<Longrightarrow> cells ?ga ! nat b ! nat a = 0"
    using wf_blank [of h w ?ga] assms by simp_all
  with gb have "agree ?ga gb"
    by (simp add: agree_def in_bounds_def in_bounds_bits_def)
  with new gb(1) show ?thesis by blast
qed

lemma agree_SetCell:
  assumes ag: "agree ga gb" and v: "v = 0 \<or> v = 1"
  shows "\<exists>ga' gb'. SetCell ga x y v = Some ga' \<and> SetCell_bits gb x y v = Some gb' \<and> agree ga' gb'"
proof (cases "in_bounds ga x y")
  case False
  with ag agree_in_bounds [OF ag] show ?thesis by (simp add: SetCell_def SetCell_bits_def)
next
  case True
  from ag have wfa: "wf_grid ga" and wfb: "wf_bits gb"
    and dims: "width ga = width_bits gb" "height ga = height_bits gb"
    and cells: "\<And>a b. in_bounds ga a b \<Longrightarrow>
                  cells ga ! nat b ! nat a = (if alive_bits gb a b then 1 else 0)"
    by (simp_all add: agree_def)
  note ib = agree_in_bounds [OF ag]
  let ?ga' = "ga\<lparr>cells := (cells ga)[nat y := (cells ga ! nat y)[nat x := v]]\<rparr>"
  from SetCell_bits_wf [OF wfb, of x y v] True ib
  obtain gb' where gb': "SetCell_bits gb x y v = Some gb'" "wf_bits gb'"
      "width_bits gb' = width_bits gb" "height_bits gb' = height_bits gb"
      "\<And>a b. in_bounds_bits gb a b \<Longrightarrow>
         alive_bits gb' a b = (if a = x \<and> b = y then v = 1 else alive_bits gb a b)"
    by auto
  have "agree ?ga' gb'"
    unfolding agree_def
  proof (intro conjI allI impI)
    show "wf_grid ?ga'" by (rule wf_update [OF wfa True])
    show "wf_bits gb'" by fact
    show "width ?ga' = width_bits gb'" "height ?ga' = height_bits gb'"
      using dims gb'(3,4) by simp_all
    fix a b assume "in_bounds ?ga' a b"
    then have ab: "in_bounds ga a b" by (simp add: in_bounds_def)
    show "cells ?ga' ! nat b ! nat a = (if alive_bits gb' a b then 1 else 0)"
      using cells_update_nth [OF wfa True ab, of v] gb'(5) [of a b] ab ib cells [OF ab] v
      by auto
  qed
  with gb'(1) SetCell_wf [OF wfa True, of v] show ?thesis by blast
qed

lemma agree_SetCells:
  assumes "agree ga gb" "\<forall>(x, y, v) \<in> set calls. v = 0 \<or> v = 1"
  shows "\<exists>ga' gb'. SetCells ga calls = Some ga' \<and> SetCells_bits gb calls = Some gb' \<and>
           agree ga' gb'"
  using assms
proof (induction calls arbitrary: ga gb)
  case Nil
  then show ?case by simp
next
  case (Cons call calls)
  obtain x y v where call: "call = (x, y, v)" by (cases call)
  with Cons.prems(2) have v: "v = 0 \<or> v = 1" by simp
  from agree_SetCell [OF Cons.prems(1) v, of x y]
  obtain ga1 gb1 where s: "SetCell ga x y v = Some ga1" "SetCell_bits gb x y v = Some gb1"
    "agree ga1 gb1" by blast
  from Cons.IH [OF s(3)] Cons.prems(2)
  obtain ga' gb' where "SetCells ga1 calls = Some ga'" "SetCells_bits gb1 calls = Some gb'"
    "agree ga' gb'" by auto
  with s(1,2) call show ?case by simp
qed

lemma agree_BoldlyGo:
  assumes ag: "agree ga gb" and pa: "deref ha pa = Some ga" and pb: "deref hb pb = Some gb"
  shows "\<exists>na nb. BoldlyGo ha pa = Some (ha @ [na], length ha) \<and>
           BoldlyGo_bits hb pb = Some (hb @ [nb], length hb) \<and> agree na nb"
proof -
  from ag have wfa: "wf_grid ga" and wfb: "wf_bits gb"
    and dims: "width ga = width_bits gb" "height ga = height_bits gb"
    and cells: "\<And>a b. in_bounds ga a b \<Longrightarrow>
                  cells ga ! nat b ! nat a = (if alive_bits gb a b then 1 else 0)"
    by (simp_all add: agree_def)
  note ib = agree_in_bounds [OF ag]
  from BoldlyGo_wf [OF pa wfa] obtain na
    where na: "BoldlyGo ha pa = Some (ha @ [na], length ha)" "evolved ga na (\<lambda>a b. True)" by blast
  from BoldlyGo_bits_wf [OF pb wfb] obtain nb
    where nb: "BoldlyGo_bits hb pb = Some (hb @ [nb], length hb)" "evolved_bits gb nb (\<lambda>a b. True)"
    by blast
  have val: "value_at ga a b = value_bits gb a b" for a b
    using cells [of a b] ib by (simp add: value_at_def value_bits_def)
  then have cnt: "count_at ga a b = count_bits gb a b" for a b
    by (simp add: count_at_def count_bits_def)
  have one: "(cells ga ! nat b ! nat a = 1) = alive_bits gb a b" if "in_bounds ga a b" for a b
    using cells [OF that] by simp
  have "agree na nb"
    using na(2) nb(2) dims ib cnt one
    by (auto simp add: agree_def evolved_def evolved_bits_def in_bounds_def in_bounds_bits_def)
  with na(1) nb(1) show ?thesis by blast
qed

lemma SetCells_out_of_bounds:
  assumes "\<And>x y. \<not> in_bounds g x y"
  shows "SetCells g calls = Some g"
proof (induction calls)
  case Nil
  show ?case by simp
next
  case (Cons call calls)
  obtain x y v where "call = (x, y, v)" by (cases call)
  with Cons assms show ?case by (simp add: SetCell_def)
qed

lemma SetCells_bits_out_of_bounds:
  assumes "\<And>x y. \<not> in_bounds_bits g x y"
  shows "SetCells_bits g calls = Some g"
proof (induction calls)
  case Nil
  show ?case by simp
next
  case (Cons call calls)
  obtain x y v where "call = (x, y, v)" by (cases call)
  with Cons assms show ?case by (simp add: SetCell_bits_def)
qed

lemma NewGrid_dims:
  assumes "NewGrid w h = Some g"
  shows "width g = w" "height g = h" "0 \<le> h" "h = 0 \<or> 0 \<le> w"
proof -
  from assms obtain cs where cs: "make_cells w h = Some cs" "g = \<lparr>width = w, height = h, cells = cs\<rparr>"
    by (auto simp add: NewGrid_def split: bind_splits)
  then show "width g = w" "height g = h" by simp_all
  have "\<not> (h < 0 \<or> (0 < h \<and> w < 0))"
  proof
    assume "h < 0 \<or> (0 < h \<and> w < 0)"
    from make_cells_None [OF this] cs(1) show False by simp
  qed
  then show "0 \<le> h" "h = 0 \<or> 0 \<le> w" by linarith+
qed

text \<open>
  C9, as the code has it. The bit-packed grid and the byte-array grid are observationally
  equivalent wherever both constructors return a grid and the number of cells does not wrap
  (\<open>width * height + 63\<close> below \<open>2^63\<close>, as it is whenever the byte-array board fits in
  memory): for every such width and height and every sequence of \<open>SetCell\<close> calls with values
  0 or 1 applied to both, \<open>GetCell\<close> returns the same result at every coordinate of both
  grids, and the grids that the two \<open>BoldlyGo\<close> implementations return agree cell for cell.
  The dimensions may be zero, and the width negative when the height is zero.
\<close>

theorem representations_agree:
  assumes "NewGrid w h = Some ga" and "NewGrid_bits w h = Some gb"
    and "is_i64 w" and "is_i64 h" and "w * h + 63 < 2 ^ 63"
    and "\<forall>(x, y, v) \<in> set calls. v = 0 \<or> v = 1"
  shows "\<exists>ga' gb' ha qa na hb qb nb.
           SetCells ga calls = Some ga' \<and> SetCells_bits gb calls = Some gb' \<and>
           (\<forall>x y. GetCell ga' x y = GetCell_bits gb' x y) \<and>
           BoldlyGo [ga'] 0 = Some (ha, qa) \<and> deref ha qa = Some na \<and>
           BoldlyGo_bits [gb'] 0 = Some (hb, qb) \<and> deref hb qb = Some nb \<and>
           (\<forall>x y. GetCell na x y = GetCell_bits nb x y)"
proof (cases "h = 0")
  case True
  note da = NewGrid_dims [OF assms(1)]
  from True have z: "w = 0 \<or> h = 0" by simp
  note bz = NewGrid_bits_zero [OF z assms(2)]
  have outa: "\<not> in_bounds ga x y" for x y using da True by (simp add: in_bounds_def)
  have outb: "\<not> in_bounds_bits gb x y" for x y using True by (simp add: in_bounds_bits_def bz)
  have get: "GetCell ga x y = GetCell_bits gb x y" for x y
    using outa outb by (simp add: GetCell_def GetCell_bits_def)
  have da0: "deref [ga] 0 = Some ga" and db0: "deref [gb] 0 = Some gb" by (simp_all add: deref_def)
  have "BoldlyGo [ga] 0 = Some ([ga] @ [ga], length [ga])"
    by (rule BoldlyGo_zero [OF z assms(1) da0])
  moreover have "BoldlyGo_bits [gb] 0 = Some ([gb] @ [gb], length [gb])"
    by (rule BoldlyGo_bits_zero [OF z assms(2) db0])
  moreover have "deref ([ga] @ [ga]) (length [ga]) = Some ga"
    "deref ([gb] @ [gb]) (length [gb]) = Some gb" by (rule deref_alloc)+
  ultimately show ?thesis
    using SetCells_out_of_bounds [of ga calls, OF outa]
      SetCells_bits_out_of_bounds [of gb calls, OF outb] get
    by blast
next
  case False
  note da = NewGrid_dims [OF assms(1)]
  from False da have dims: "0 \<le> w" "0 \<le> h" by auto
  from assms(3,4) have up: "w < 2 ^ 63" "h < 2 ^ 63" by (simp_all add: is_i64_def)
  from agree_new [OF dims(1) up(1) dims(2) up(2) assms(5)] assms(1,2)
  have ag: "agree ga gb" by auto
  from agree_SetCells [OF ag assms(6)] obtain ga' gb'
    where set: "SetCells ga calls = Some ga'" "SetCells_bits gb calls = Some gb'" "agree ga' gb'"
    by blast
  have "deref [ga'] 0 = Some ga'" "deref [gb'] 0 = Some gb'" by (simp_all add: deref_def)
  from agree_BoldlyGo [OF set(3) this] obtain na nb
    where go: "BoldlyGo [ga'] 0 = Some ([ga'] @ [na], length [ga'])"
      "BoldlyGo_bits [gb'] 0 = Some ([gb'] @ [nb], length [gb'])" "agree na nb" by blast
  have "deref ([ga'] @ [na]) (length [ga']) = Some na"
    "deref ([gb'] @ [nb]) (length [gb']) = Some nb" by (rule deref_alloc)+
  with set(1,2) go(1,2) agree_GetCell [OF set(3)] agree_GetCell [OF go(3)]
  show ?thesis by blast
qed

theorem representations_agree_witness:
  "NewGrid 3 3 = Some \<lparr>width = 3, height = 3, cells = [[0, 0, 0], [0, 0, 0], [0, 0, 0]]\<rparr> \<and>
   NewGrid_bits 3 3 = Some \<lparr>width_bits = 3, height_bits = 3, cells_bits = [0]\<rparr> \<and>
   is_i64 3 \<and> (3::int) * 3 + 63 < 2 ^ 63 \<and>
   list_all (\<lambda>(x, y, v). v = 0 \<or> v = 1) [(0, 1, 1), (1, 1, 1), (2, 1, 1 :: byte)] \<and>
   (\<exists>ga' gb' ha qa na hb qb nb.
      SetCells \<lparr>width = 3, height = 3, cells = [[0, 0, 0], [0, 0, 0], [0, 0, 0]]\<rparr>
        [(0, 1, 1), (1, 1, 1), (2, 1, 1)] = Some ga' \<and>
      SetCells_bits \<lparr>width_bits = 3, height_bits = 3, cells_bits = [0]\<rparr>
        [(0, 1, 1), (1, 1, 1), (2, 1, 1)] = Some gb' \<and>
      (\<forall>x y. GetCell ga' x y = GetCell_bits gb' x y) \<and>
      BoldlyGo [ga'] 0 = Some (ha, qa) \<and> deref ha qa = Some na \<and>
      BoldlyGo_bits [gb'] 0 = Some (hb, qb) \<and> deref hb qb = Some nb \<and>
      (\<forall>x y. GetCell na x y = GetCell_bits nb x y)) \<and>
   NewGrid (- 1) 0 = Some \<lparr>width = - 1, height = 0, cells = []\<rparr> \<and>
   NewGrid_bits (- 1) 0 = Some \<lparr>width_bits = - 1, height_bits = 0, cells_bits = []\<rparr> \<and>
   is_i64 (- 1) \<and> is_i64 0 \<and> (- 1 :: int) * 0 + 63 < 2 ^ 63 \<and>
   (\<exists>ga' gb' ha qa na hb qb nb.
      SetCells \<lparr>width = - 1, height = 0, cells = []\<rparr> [(0, 0, 1)] = Some ga' \<and>
      SetCells_bits \<lparr>width_bits = - 1, height_bits = 0, cells_bits = []\<rparr> [(0, 0, 1)] = Some gb' \<and>
      (\<forall>x y. GetCell ga' x y = GetCell_bits gb' x y) \<and>
      BoldlyGo [ga'] 0 = Some (ha, qa) \<and> deref ha qa = Some na \<and>
      BoldlyGo_bits [gb'] 0 = Some (hb, qb) \<and> deref hb qb = Some nb \<and>
      (\<forall>x y. GetCell na x y = GetCell_bits nb x y))"
proof -
  have a: "NewGrid 3 3 = Some \<lparr>width = 3, height = 3, cells = [[0, 0, 0], [0, 0, 0], [0, 0, 0]]\<rparr>"
    "NewGrid_bits 3 3 = Some \<lparr>width_bits = 3, height_bits = 3, cells_bits = [0]\<rparr>"
    "NewGrid (- 1) 0 = Some \<lparr>width = - 1, height = 0, cells = []\<rparr>"
    "NewGrid_bits (- 1) 0 = Some \<lparr>width_bits = - 1, height_bits = 0, cells_bits = []\<rparr>"
    by code_simp+
  have b: "is_i64 3" "is_i64 (- 1)" "is_i64 0" "(3::int) * 3 + 63 < 2 ^ 63"
    "(- 1 :: int) * 0 + 63 < 2 ^ 63"
    by (simp_all add: is_i64_def)
  have c: "\<forall>(x, y, v) \<in> set [(0, 1, 1), (1, 1, 1), (2, 1, 1 :: byte)]. v = 0 \<or> v = 1"
    "\<forall>(x, y, v) \<in> set [(0, 0, 1 :: byte)]. v = 0 \<or> v = 1" by simp_all
  from representations_agree [OF a(1,2) b(1,1) b(4) c(1)]
    representations_agree [OF a(3,4) b(2,3) b(5) c(2)] a b
  show ?thesis by simp
qed

text \<open>C9 as stated, for every width and height, fails at width \<open>-1\<close> and height 5: the
  byte-array \<open>NewGrid\<close> panics on the negative row length, while the bit-packed \<open>NewGrid\<close>
  returns a grid, on which \<open>GetCell\<close> answers 0.\<close>

theorem constructors_differ:
  "NewGrid (- 1) 5 = None \<and>
   NewGrid_bits (- 1) 5 = Some \<lparr>width_bits = - 1, height_bits = 5, cells_bits = []\<rparr> \<and>
   GetCell_bits \<lparr>width_bits = - 1, height_bits = 5, cells_bits = []\<rparr> 0 0 = Some 0"
  by code_simp

end
